theory Spec2Isabelle
  imports Main
begin

section \<open>Runes, strings and errors\<close>

text \<open>
  A rune is a Unicode code point. The reader obtains its runes from a
  \<^verbatim>\<open>bufio.Reader\<close>; the input is modelled as the finite sequence of what
  \<^verbatim>\<open>ReadRune\<close> gives for it: runes, and between them the read errors of the
  underlying stream, each reported once. After the last of them the stream is
  exhausted, and every further read gives \<^verbatim>\<open>io.EOF\<close>. A Go string is the
  sequence of its runes.
  Line and column counters are Go \<^verbatim>\<open>int\<close>s; they count runes of the
  input, so they are modelled as unbounded integers.
\<close>

type_synonym rune = nat
type_synonym gostring = "rune list"

abbreviation TAB :: rune where "TAB \<equiv> 9"
abbreviation LF :: rune where "LF \<equiv> 10"
abbreviation CR :: rune where "CR \<equiv> 13"
abbreviation SPACE :: rune where "SPACE \<equiv> 32"
abbreviation HASH :: rune where "HASH \<equiv> 35"
abbreviation LBRACE :: rune where "LBRACE \<equiv> 123"
abbreviation RBRACE :: rune where "RBRACE \<equiv> 125"

text \<open>A string literal of the source, as runes.\<close>

definition runes :: "string \<Rightarrow> gostring" where
  "runes s = map of_char s"

text \<open>\<^verbatim>\<open>unicode.IsSpace\<close> of the Go standard library (the White_Space property).\<close>

definition IsSpace :: "rune \<Rightarrow> bool" where
  "IsSpace c \<longleftrightarrow>
     c = 9 \<or> c = 10 \<or> c = 11 \<or> c = 12 \<or> c = 13 \<or> c = 32 \<or> c = 133 \<or> c = 160 \<or>
     c = 5760 \<or> (8192 \<le> c \<and> c \<le> 8202) \<or> c = 8232 \<or> c = 8233 \<or> c = 8239 \<or>
     c = 8287 \<or> c = 12288"

text \<open>\<^verbatim>\<open>strings.Join\<close> with a separator.\<close>

fun Join :: "gostring list \<Rightarrow> gostring \<Rightarrow> gostring" where
  "Join [] sep = []"
| "Join [x] sep = x"
| "Join (x # y # ys) sep = x @ sep @ Join (y # ys) sep"

datatype cause = ErrNoValue | ErrUnknown

text \<open>
  The error values: \<^verbatim>\<open>io.EOF\<close>, any other error of the underlying stream
  (told apart by a number), and the \<^verbatim>\<open>ParseError\<close> of the package.
\<close>

datatype goerror = EOF | IOFailure nat | ParseError (Line: int) (Column: int) (Err: cause)

text \<open>A call of the source either returns or panics.\<close>

datatype 'a outcome = Panic | Ret 'a

section \<open>The reader\<close>

text \<open>
  The struct \<^verbatim>\<open>Reader\<close>. Its field \<^verbatim>\<open>r\<close>, the wrapped
  \<^verbatim>\<open>bufio.Reader\<close>, is kept as the components the parser depends on:
  \<open>buf\<close>, the runes that can be read before the next read error of the stream;
  \<open>later\<close>, what the stream gives after them, each time a read error and the
  runes that follow it; and \<open>lastRune\<close>, the rune that \<^verbatim>\<open>UnreadRune\<close> can
  put back (none unless the last operation was a successful \<^verbatim>\<open>ReadRune\<close>).
  \<^verbatim>\<open>NewReader\<close> is given the stream: its first runes, and what comes later.
\<close>

record Reader =
  Comment :: rune
  line :: int
  inputline :: int
  column :: int
  field :: gostring
  buf :: "rune list"
  lastRune :: "rune option"
  later :: "(goerror \<times> rune list) list"

definition NewReader :: "rune list \<Rightarrow> (goerror \<times> rune list) list \<Rightarrow> Reader" where
  "NewReader rr ls =
     \<lparr>Comment = HASH, line = 0, inputline = 0, column = 0, field = [],
      buf = rr, lastRune = None, later = ls\<rparr>"

text \<open>
  \<^verbatim>\<open>bufio.Reader.ReadRune\<close> and \<^verbatim>\<open>UnreadRune\<close> on the wrapped reader.
  With no rune to give, \<^verbatim>\<open>ReadRune\<close> returns the rune 0 and the error of the
  stream, and the error is cleared: the next call reads on.
\<close>

definition ReadRune :: "Reader \<Rightarrow> rune \<times> goerror option \<times> Reader" where
  "ReadRune rd =
     (case buf rd of
        [] \<Rightarrow>
          (case later rd of
             [] \<Rightarrow> (0, Some EOF, rd\<lparr>lastRune := None\<rparr>)
           | (x, rr) # ls \<Rightarrow> (0, Some x, rd\<lparr>buf := rr, lastRune := None, later := ls\<rparr>))
      | c # cs \<Rightarrow> (c, None, rd\<lparr>buf := cs, lastRune := Some c\<rparr>))"

definition UnreadRune :: "Reader \<Rightarrow> Reader" where
  "UnreadRune rd =
     (case lastRune rd of
        None \<Rightarrow> rd
      | Some c \<Rightarrow> rd\<lparr>buf := c # buf rd, lastRune := None\<rparr>)"

definition Reader_error :: "Reader \<Rightarrow> cause \<Rightarrow> goerror" where
  "Reader_error rd err = ParseError (line rd) (column rd) err"

definition readRune :: "Reader \<Rightarrow> rune \<times> goerror option \<times> Reader" where
  "readRune rd0 =
     (case ReadRune rd0 of (r1, err, rd) \<Rightarrow>
        (case (if r1 = CR then
                 (case ReadRune rd of (r1', err', rd') \<Rightarrow>
                    if err' = None then
                      (if r1' \<noteq> LF then (CR, err', UnreadRune rd') else (r1', err', rd'))
                    else (r1', err', rd'))
               else if r1 = LF then (r1, err, rd\<lparr>inputline := inputline rd + 1\<rparr>)
               else (r1, err, rd))
         of (r1, err, rd) \<Rightarrow> (r1, err, rd\<lparr>column := column rd + 1\<rparr>)))"

text \<open>
  What is left of the stream: its runes and its read errors. A call that reads
  advances: it leaves no more than it found, and less unless the stream was exhausted,
  in which case it fails with \<^verbatim>\<open>io.EOF\<close>; without an error it has met no
  read error of the stream; its error, if any, is \<^verbatim>\<open>io.EOF\<close> or a read error
  of the stream.
\<close>

definition remaining :: "Reader \<Rightarrow> nat" where
  "remaining rd = length (buf rd) + sum_list (map (\<lambda>(x, rr). Suc (length rr)) (later rd))"

definition advance :: "Reader \<Rightarrow> goerror option \<Rightarrow> Reader \<Rightarrow> bool" where
  "advance rd err rd' \<longleftrightarrow>
     remaining rd' \<le> remaining rd \<and>
     (remaining rd \<noteq> 0 \<longrightarrow> remaining rd' < remaining rd) \<and>
     (remaining rd = 0 \<longrightarrow> err = Some EOF) \<and>
     set (later rd') \<subseteq> set (later rd) \<and>
     (err = None \<longrightarrow> later rd' = later rd) \<and>
     (\<forall>x. err = Some x \<longrightarrow> x = EOF \<or> x \<in> fst ` set (later rd))"

lemma remaining_field [simp]: "remaining (rd\<lparr>field := f\<rparr>) = remaining rd"
  by (simp add: remaining_def)

lemma remaining_line [simp]: "remaining (rd\<lparr>line := l\<rparr>) = remaining rd"
  by (simp add: remaining_def)

lemma remaining_column [simp]: "remaining (rd\<lparr>column := c\<rparr>) = remaining rd"
  by (simp add: remaining_def)

lemma advance_field [simp]: "advance (rd\<lparr>field := f\<rparr>) err rd' = advance rd err rd'"
  by (simp add: advance_def)

lemma advance_line [simp]: "advance (rd\<lparr>line := l\<rparr>) err rd' = advance rd err rd'"
  by (simp add: advance_def)

lemma advance_column [simp]: "advance (rd\<lparr>column := c\<rparr>) err rd' = advance rd err rd'"
  by (simp add: advance_def)

lemma advance_None: "advance rd None rd' \<Longrightarrow> remaining rd' < remaining rd"
  by (auto simp: advance_def)

lemma advance_trans: "advance rd None rd1 \<Longrightarrow> advance rd1 err rd' \<Longrightarrow> advance rd err rd'"
  by (fastforce simp: advance_def)

lemma ReadRune_advance: "ReadRune rd = (c, err, rd') \<Longrightarrow> advance rd err rd'"
  by (auto simp: advance_def remaining_def ReadRune_def split: list.splits)

lemma readRune_advance: "readRune rd = (c, err, rd') \<Longrightarrow> advance rd err rd'"
  by (auto simp: advance_def remaining_def readRune_def ReadRune_def UnreadRune_def
      split: list.splits if_splits prod.splits option.splits)

text \<open>\<^verbatim>\<open>skip\<close>: advance until \<open>delim\<close> has been read.\<close>

function skip :: "rune \<Rightarrow> Reader \<Rightarrow> goerror option \<times> Reader" where
  "skip delim rd =
     (case readRune rd of (r1, err, rd') \<Rightarrow>
        if err \<noteq> None then (err, rd')
        else if r1 = delim then (None, rd')
        else skip delim rd')"
  by pat_completeness auto
termination
  by (relation "measure (\<lambda>(delim, rd). remaining rd)")
     (auto dest: readRune_advance [OF sym] advance_None)

declare skip.simps [simp del]

lemma skip_advance: "skip delim rd = (err, rd') \<Longrightarrow> advance rd err rd'"
proof (induction delim rd arbitrary: err rd' rule: skip.induct)
  case (1 delim rd)
  obtain r1 e1 rd1 where rr: "readRune rd = (r1, e1, rd1)"
    by (cases "readRune rd") auto
  have a: "advance rd e1 rd1" using rr by (rule readRune_advance)
  show ?case
  proof (cases "e1 = None \<and> r1 \<noteq> delim")
    case True
    then have "skip delim rd1 = (err, rd')"
      using "1.prems" rr by (subst (asm) skip.simps) simp
    then have "advance rd1 err rd'"
      using "1.IH" [OF rr [symmetric] refl] True by simp
    then show ?thesis using a True advance_trans by blast
  next
    case False
    then have "rd' = rd1 \<and> err = e1"
      using "1.prems" rr by (subst (asm) skip.simps) (auto split: if_splits)
    then show ?thesis using a by simp
  qed
qed

section \<open>The field scanner\<close>

text \<open>
  The constants and helpers that \<^verbatim>\<open>io.go\<close> takes from the rest of the
  package are parameters of the model: the brace threshold \<^verbatim>\<open>DEF_ALIGN\<close>,
  the lookup \<^verbatim>\<open>CfgName.Type\<close> of an object type by its name, the name
  \<^verbatim>\<open>CfgType.String\<close> of a type, the presentation defaults that
  \<^verbatim>\<open>NewCfgObj\<close> gives a new object, and the comment text that
  \<^verbatim>\<open>generateComment\<close> leaves in an object.
\<close>

datatype CfgType = T_INVALID | T_KIND nat

datatype UUID = NoUUID | U nat

record CfgObj =
  Type :: CfgType
  UUID :: UUID
  Props :: "gostring \<rightharpoonup> gostring"
  FileID :: gostring
  Indent :: nat
  Align :: nat

record env =
  DEF_ALIGN :: int
  DEF_INDENT :: nat
  NEW_ALIGN :: nat
  CfgName_Type :: "gostring \<Rightarrow> CfgType"
  CfgType_String :: "CfgType \<Rightarrow> gostring"
  generateComment :: "CfgObj \<Rightarrow> gostring"

text \<open>
  The leading loop of \<^verbatim>\<open>parseFields\<close>: read a rune, and read again
  while the rune is whitespace other than a newline.
\<close>

function skipSpace :: "Reader \<Rightarrow> rune \<times> goerror option \<times> Reader" where
  "skipSpace rd =
     (case readRune rd of (r1, err, rd') \<Rightarrow>
        if err = None \<and> r1 \<noteq> LF \<and> IsSpace r1 then skipSpace rd'
        else (r1, err, rd'))"
  by pat_completeness auto
termination
  by (relation "measure remaining")
     (auto dest: readRune_advance [OF sym] advance_None)

declare skipSpace.simps [simp del]

lemma skipSpace_advance: "skipSpace rd = (c, err, rd') \<Longrightarrow> advance rd err rd'"
proof (induction rd arbitrary: c err rd' rule: skipSpace.induct)
  case (1 rd)
  obtain r1 e1 rd1 where rr: "readRune rd = (r1, e1, rd1)"
    by (cases "readRune rd") auto
  have a: "advance rd e1 rd1" using rr by (rule readRune_advance)
  show ?case
  proof (cases "e1 = None \<and> r1 \<noteq> LF \<and> IsSpace r1")
    case True
    then have "skipSpace rd1 = (c, err, rd')"
      using "1.prems" rr by (subst (asm) skipSpace.simps) simp
    then have "advance rd1 err rd'"
      using "1.IH" [OF rr [symmetric] refl] True by simp
    then show ?thesis using a True advance_trans by blast
  next
    case False
    then have "rd' = rd1 \<and> err = e1"
      using "1.prems" rr by (subst (asm) skipSpace.simps) (auto split: if_splits)
    then show ?thesis using a by simp
  qed
qed

text \<open>
  The accumulating loop of \<^verbatim>\<open>parseFields\<close> (the \<^verbatim>\<open>default\<close>
  case), entered with the rune \<open>r1\<close> in hand. It ends with the rune and the error
  of the last \<^verbatim>\<open>readRune\<close>.
\<close>

function accumulate :: "int \<Rightarrow> rune \<Rightarrow> Reader \<Rightarrow> rune \<times> goerror option \<times> Reader" where
  "accumulate al r1 rd =
     (case readRune (if \<not> IsSpace r1 then rd\<lparr>field := field rd @ [r1]\<rparr> else rd) of
        (r1', err, rd') \<Rightarrow>
          if err \<noteq> None then (r1', err, rd')
          else if r1' = LBRACE then
            (if column rd' > al then accumulate al r1' rd' else (r1', err, rd'))
          else if IsSpace r1' then (r1', err, rd')
          else accumulate al r1' rd')"
  by pat_completeness auto
termination
  by (relation "measure (\<lambda>(al, r1, rd). remaining rd)")
     (auto dest!: readRune_advance [OF sym] advance_None split: if_splits)

declare accumulate.simps [simp del]

lemma accumulate_advance: "accumulate al r1 rd = (c, err, rd') \<Longrightarrow> advance rd err rd'"
proof (induction al r1 rd arbitrary: c err rd' rule: accumulate.induct)
  case (1 al r1 rd)
  let ?rd = "if \<not> IsSpace r1 then rd\<lparr>field := field rd @ [r1]\<rparr> else rd"
  obtain x e1 rd1 where rr: "readRune ?rd = (x, e1, rd1)"
    by (cases "readRune ?rd") auto
  have a: "advance rd e1 rd1"
    using readRune_advance [OF rr] by (simp split: if_splits)
  show ?case
  proof (cases "e1 = None \<and> (if x = LBRACE then al < column rd1 else \<not> IsSpace x)")
    case True
    then have acc: "accumulate al x rd1 = (c, err, rd')"
      using "1.prems" rr by (subst (asm) accumulate.simps) (simp split: if_splits)
    have "advance rd1 err rd'"
    proof (cases "x = LBRACE")
      case True
      then show ?thesis
        using "1.IH"(1) [OF rr [symmetric] refl] \<open>e1 = None \<and> _\<close> acc by simp
    next
      case False
      then show ?thesis
        using "1.IH"(2) [OF rr [symmetric] refl] \<open>e1 = None \<and> _\<close> acc by simp
    qed
    then show ?thesis using a True advance_trans by blast
  next
    case False
    then have "rd' = rd1 \<and> err = e1"
      using "1.prems" rr by (subst (asm) accumulate.simps) (auto split: if_splits)
    then show ?thesis using a by simp
  qed
qed

definition parseFields :: "env \<Rightarrow> Reader \<Rightarrow> bool \<times> rune \<times> goerror option \<times> Reader" where
  "parseFields e rd0 =
     (case skipSpace (rd0\<lparr>field := []\<rparr>) of (r1, err, rd) \<Rightarrow>
        if err = Some EOF \<and> column rd \<noteq> 0 then (True, 0, err, rd)
        else if err \<noteq> None then (False, 0, err, rd)
        else if r1 = LF then (False, r1, None, rd)
        else if r1 = TAB then (False, r1, None, rd)
        else if r1 = SPACE then (False, r1, None, rd)
        else if r1 = LBRACE then (False, r1, None, rd)
        else if r1 = RBRACE then (True, r1, None, rd)
        else
          (case accumulate (DEF_ALIGN e) r1 rd of (r1', err', rd') \<Rightarrow>
             if err' \<noteq> None then
               (if err' = Some EOF then (True, 0, err', rd') else (False, 0, err', rd'))
             else (True, r1', None, rd')))"

lemma parseFields_advance: "parseFields e rd = (h, d, err, rd') \<Longrightarrow> advance rd err rd'"
proof -
  assume pf: "parseFields e rd = (h, d, err, rd')"
  obtain c e1 rd1 where ss: "skipSpace (rd\<lparr>field := []\<rparr>) = (c, e1, rd1)"
    by (cases "skipSpace (rd\<lparr>field := []\<rparr>)") auto
  obtain c2 e2 rd2 where ac: "accumulate (DEF_ALIGN e) c rd1 = (c2, e2, rd2)"
    by (cases "accumulate (DEF_ALIGN e) c rd1") auto
  have a1: "advance rd e1 rd1" using skipSpace_advance [OF ss] by simp
  have a2: "advance rd1 e2 rd2" using ac by (rule accumulate_advance)
  have "(err = e1 \<and> rd' = rd1) \<or> (e1 = None \<and> err = e2 \<and> rd' = rd2)"
    using pf ss ac by (auto simp: parseFields_def split: if_splits)
  then show ?thesis using a1 a2 advance_trans by blast
qed

lemma parseFields_error_delim:
  "parseFields e rd = (h, d, Some er, rd') \<Longrightarrow> d = 0"
  by (auto simp: parseFields_def split: if_splits prod.splits)

section \<open>The line assembler\<close>

datatype IoState = IO_OBJ_OUT | IO_OBJ_BEGIN | IO_OBJ_IN | IO_OBJ_END

text \<open>
  The loop of \<^verbatim>\<open>parseLine\<close>. A \<^verbatim>\<open>nil\<close> slice of fields is the
  empty list: the slice is made only to be appended to at once.
\<close>

function parseLine_loop ::
  "env \<Rightarrow> gostring list \<Rightarrow> Reader \<Rightarrow> gostring list \<times> IoState \<times> goerror option \<times> Reader" where
  "parseLine_loop e fs rd =
     (case parseFields e rd of (haveField, delim, err, rd') \<Rightarrow>
        (let fs' = (if haveField then fs @ [field rd'] else fs) in
         if delim = LBRACE then (fs', IO_OBJ_BEGIN, err, rd')
         else if delim = RBRACE then (fs', IO_OBJ_END, err, rd')
         else if delim = LF then (fs', IO_OBJ_IN, err, rd')
         else if err = Some EOF then (fs', IO_OBJ_OUT, err, rd')
         else if err \<noteq> None then ([], IO_OBJ_OUT, err, rd')
         else parseLine_loop e fs' rd'))"
  by pat_completeness auto
termination
  by (relation "measure (\<lambda>(e, fs, rd). remaining rd)")
     (auto dest: parseFields_advance [OF sym] advance_None)

declare parseLine_loop.simps [simp del]

lemma parseLine_loop_advance:
  "parseLine_loop e fs rd = (fs', st, err, rd') \<Longrightarrow> advance rd err rd'"
proof (induction e fs rd arbitrary: fs' st err rd' rule: parseLine_loop.induct)
  case (1 e fs rd)
  obtain h d e1 rd1 where pf: "parseFields e rd = (h, d, e1, rd1)"
    by (cases "parseFields e rd") auto
  have a: "advance rd e1 rd1" using pf by (rule parseFields_advance)
  show ?case
  proof (cases "d = LBRACE \<or> d = RBRACE \<or> d = LF \<or> e1 \<noteq> None")
    case True
    then have "rd' = rd1 \<and> err = e1"
      using "1.prems" pf by (subst (asm) parseLine_loop.simps) (auto simp: Let_def split: if_splits)
    then show ?thesis using a by simp
  next
    case False
    then have "parseLine_loop e (if h then fs @ [field rd1] else fs) rd1 = (fs', st, err, rd')"
      using "1.prems" pf by (subst (asm) parseLine_loop.simps) (simp add: Let_def)
    then have "advance rd1 err rd'"
      using "1.IH" [OF pf [symmetric] refl refl refl] False by simp
    moreover have "advance rd None rd1" using a False by simp
    ultimately show ?thesis using advance_trans by blast
  qed
qed

definition parseLine ::
  "env \<Rightarrow> Reader \<Rightarrow> gostring list \<times> IoState \<times> goerror option \<times> Reader" where
  "parseLine e rd0 =
     (case ReadRune (rd0\<lparr>line := line rd0 + 1, column := - 1\<rparr>) of (r1, err, rd) \<Rightarrow>
        if err \<noteq> None then ([], IO_OBJ_OUT, err, rd)
        else if Comment rd \<noteq> 0 \<and> r1 = Comment rd then
          (case skip LF rd of (err', rd') \<Rightarrow> ([], IO_OBJ_OUT, err', rd'))
        else parseLine_loop e [] (UnreadRune rd))"

lemma parseLine_loop_state_err:
  "parseLine_loop e fs rd = (fs', st, err, rd') \<Longrightarrow> st \<noteq> IO_OBJ_OUT \<Longrightarrow> err = None"
proof (induction e fs rd arbitrary: fs' st err rd' rule: parseLine_loop.induct)
  case (1 e fs rd)
  obtain h d e1 rd1 where pf: "parseFields e rd = (h, d, e1, rd1)"
    by (cases "parseFields e rd") auto
  have d0: "e1 \<noteq> None \<Longrightarrow> d = 0"
    using parseFields_error_delim pf by (cases e1) auto
  show ?case
  proof (cases "d = LBRACE \<or> d = RBRACE \<or> d = LF")
    case True
    then have "err = e1"
      using "1.prems"(1) pf by (subst (asm) parseLine_loop.simps) (auto split: if_splits)
    then show ?thesis using d0 True by (cases e1) auto
  next
    case False
    show ?thesis
    proof (cases "e1 = None")
      case True
      then have "parseLine_loop e (if h then fs @ [field rd1] else fs) rd1 = (fs', st, err, rd')"
        using "1.prems"(1) pf False by (subst (asm) parseLine_loop.simps) (simp add: Let_def)
      then show ?thesis
        using "1.IH" [OF pf [symmetric] refl refl refl] False True "1.prems"(2)
        by simp
    next
      case False
      then have "st = IO_OBJ_OUT"
        using "1.prems"(1) pf \<open>\<not> (d = LBRACE \<or> d = RBRACE \<or> d = LF)\<close>
        by (subst (asm) parseLine_loop.simps) (auto simp: Let_def split: if_splits)
      then show ?thesis using "1.prems"(2) by simp
    qed
  qed
qed

lemma parseLine_state_err:
  "parseLine e rd = (fs, st, err, rd') \<Longrightarrow> st \<noteq> IO_OBJ_OUT \<Longrightarrow> err = None"
proof -
  assume pl: "parseLine e rd = (fs, st, err, rd')" and st: "st \<noteq> IO_OBJ_OUT"
  let ?rd = "rd\<lparr>line := line rd + 1, column := - 1\<rparr>"
  obtain c e1 rd1 where rr: "ReadRune ?rd = (c, e1, rd1)"
    by (cases "ReadRune ?rd") auto
  have "parseLine_loop e [] (UnreadRune rd1) = (fs, st, err, rd')"
    using pl st rr by (simp add: parseLine_def split: if_splits prod.splits)
  then show ?thesis using st by (rule parseLine_loop_state_err)
qed
lemma parseLine_advance: "parseLine e rd = (fs, st, err, rd') \<Longrightarrow> advance rd err rd'"
proof -
  assume pl: "parseLine e rd = (fs, st, err, rd')"
  let ?rd = "rd\<lparr>line := line rd + 1, column := - 1\<rparr>"
  obtain c e1 rd1 where rr: "ReadRune ?rd = (c, e1, rd1)"
    by (cases "ReadRune ?rd") auto
  have a: "advance rd e1 rd1" using ReadRune_advance [OF rr] by simp
  show ?thesis
  proof (cases "e1 = None")
    case False
    then have "rd' = rd1 \<and> err = e1" using pl rr by (simp add: parseLine_def)
    then show ?thesis using a by simp
  next
    case True
    show ?thesis
    proof (cases "Comment rd1 \<noteq> 0 \<and> c = Comment rd1")
      case True
      then have "skip LF rd1 = (err, rd')"
        using pl rr \<open>e1 = None\<close> by (auto simp: parseLine_def split: prod.splits)
      then have "advance rd1 err rd'" by (rule skip_advance)
      then show ?thesis using a \<open>e1 = None\<close> advance_trans by blast
    next
      case False
      then have l: "parseLine_loop e [] (UnreadRune rd1) = (fs, st, err, rd')"
        using pl rr \<open>e1 = None\<close> by (auto simp: parseLine_def)
      have u: "UnreadRune rd1 = ?rd\<lparr>lastRune := None\<rparr>"
        using rr \<open>e1 = None\<close> by (auto simp: ReadRune_def UnreadRune_def split: list.splits)
      have "advance (UnreadRune rd1) err rd'" using l by (rule parseLine_loop_advance)
      then show ?thesis unfolding u by (simp add: advance_def remaining_def)
    qed
  qed
qed

lemma parseLine_fields_remaining:
  "parseLine e rd = (fs, st, err, rd') \<Longrightarrow> fs \<noteq> [] \<Longrightarrow> remaining rd' < remaining rd"
proof -
  assume pl: "parseLine e rd = (fs, st, err, rd')" and fs: "fs \<noteq> []"
  have "buf rd \<noteq> []"
    using pl fs by (cases "buf rd") (auto simp: parseLine_def ReadRune_def split: list.splits)
  then have "remaining rd \<noteq> 0" by (simp add: remaining_def)
  then show ?thesis using parseLine_advance [OF pl] by (simp add: advance_def)
qed

section \<open>The object builder\<close>

text \<open>
  The process-wide state that \<^verbatim>\<open>Read\<close> touches: the read-order ledger
  \<^verbatim>\<open>uuidorder\<close>, and the source of fresh identities.
\<close>

record world =
  uuidorder :: "UUID list"
  uuidgen :: nat

text \<open>
  Modelled from the spec: \<^verbatim>\<open>NewCfgObj\<close> and \<^verbatim>\<open>NewCfgObjWithUUID\<close>
  are declared outside \<^verbatim>\<open>io.go\<close>. A new object has the given type, no
  properties, no origin file and the presentation defaults; with an identity it
  gets a globally unique identifier at creation.
\<close>

definition NewCfgObj :: "env \<Rightarrow> CfgType \<Rightarrow> CfgObj" where
  "NewCfgObj e ct =
     \<lparr>Type = ct, UUID = NoUUID, Props = Map.empty, FileID = [],
      Indent = DEF_INDENT e, Align = NEW_ALIGN e\<rparr>"

definition NewCfgObjWithUUID :: "env \<Rightarrow> CfgType \<Rightarrow> world \<Rightarrow> CfgObj \<times> world" where
  "NewCfgObjWithUUID e ct g =
     ((NewCfgObj e ct)\<lparr>UUID := U (uuidgen g)\<rparr>, g\<lparr>uuidgen := uuidgen g + 1\<rparr>)"

text \<open>
  Modelled from the spec: \<^verbatim>\<open>CfgObj.Add\<close> is declared outside
  \<^verbatim>\<open>io.go\<close>; as its test \<^verbatim>\<open>TestAdd\<close> has it, a key is added once
  and a second \<^verbatim>\<open>Add\<close> of the same key is refused.
\<close>

definition CfgObj_Add :: "gostring \<Rightarrow> gostring \<Rightarrow> CfgObj \<Rightarrow> CfgObj" where
  "CfgObj_Add k v co =
     (if k \<in> dom (Props co) then co else co\<lparr>Props := (Props co)(k \<mapsto> v)\<rparr>)"

type_synonym ReadResult = "(CfgObj option \<times> goerror option \<times> world \<times> Reader) outcome"

text \<open>
  One round of the loop of \<^verbatim>\<open>Read\<close>, over its local variables \<open>co\<close>
  (a \<^verbatim>\<open>nil\<close> pointer is \<open>None\<close>) and \<open>prevState\<close>: the round either
  returns from \<^verbatim>\<open>Read\<close> or goes on to the next round (by
  \<^verbatim>\<open>continue\<close> or by reaching the end of the loop body). Indexing
  \<^verbatim>\<open>fields[1]\<close> panics when the slice has fewer than two elements.
\<close>

datatype ReadStep = Return ReadResult | Continue "CfgObj option" IoState world Reader

definition Read_body ::
  "env \<Rightarrow> bool \<Rightarrow> gostring \<Rightarrow> CfgObj option \<Rightarrow> IoState \<Rightarrow> world \<Rightarrow> Reader \<Rightarrow> ReadStep" where
  "Read_body e setUUID fileID co prevState g rd =
     (case parseLine e rd of (fs, state, err, rd') \<Rightarrow>
        if fs \<noteq> [] then
          (case state of
             IO_OBJ_BEGIN \<Rightarrow>
               if prevState \<noteq> IO_OBJ_OUT then Continue co prevState g rd'
               else if length fs < 2 then Return Panic
               else
                 (let ct = CfgName_Type e (fs ! 1) in
                  if ct = T_INVALID then
                    Return (Ret (None, Some (Reader_error rd' ErrUnknown), g, rd'))
                  else
                    (case (if setUUID then
                             (case NewCfgObjWithUUID e ct g of (c, g') \<Rightarrow>
                                (c, g'\<lparr>uuidorder := uuidorder g' @ [UUID c]\<rparr>))
                           else (NewCfgObj e ct, g)) of (c, g') \<Rightarrow>
                       (let c' = (if fileID \<noteq> [] then c\<lparr>FileID := fileID\<rparr> else c) in
                        if err \<noteq> None then Return (Ret (None, err, g', rd'))
                        else Continue (Some c') IO_OBJ_BEGIN g' rd')))
           | IO_OBJ_IN \<Rightarrow>
               if length fs < 2 \<or> co = None then Continue co prevState g rd'
               else
                 (let co' = map_option (CfgObj_Add (fs ! 0) (Join (drop 1 fs) [SPACE])) co in
                  if err \<noteq> None then Return (Ret (None, err, g, rd'))
                  else Continue co' prevState g rd')
           | IO_OBJ_END \<Rightarrow> Return (Ret (co, None, g, rd'))
           | IO_OBJ_OUT \<Rightarrow> Return (Ret (None, Some (Reader_error rd' ErrUnknown), g, rd')))
        else if err \<noteq> None then Return (Ret (None, err, g, rd'))
        else Continue co prevState g rd')"

lemma Read_body_Continue_advance:
  assumes "Read_body e setUUID fileID co prevState g rd = Continue co' prevState' g' rd'"
  shows "advance rd None rd'"
proof -
  obtain fs st err rd1 where pl: "parseLine e rd = (fs, st, err, rd1)"
    by (cases "parseLine e rd") auto
  have rd1: "rd' = rd1"
    using assms pl
    by (auto simp: Read_body_def Let_def split: if_splits IoState.splits prod.splits)
  have "st \<noteq> IO_OBJ_OUT \<or> err = None"
    using assms pl
    by (auto simp: Read_body_def Let_def split: if_splits IoState.splits prod.splits)
  then have "err = None" using parseLine_state_err [OF pl] by blast
  then show ?thesis using parseLine_advance [OF pl] rd1 by simp
qed

function Read_loop ::
  "env \<Rightarrow> bool \<Rightarrow> gostring \<Rightarrow> CfgObj option \<Rightarrow> IoState \<Rightarrow> world \<Rightarrow> Reader \<Rightarrow> ReadResult" where
  "Read_loop e setUUID fileID co prevState g rd =
     (case Read_body e setUUID fileID co prevState g rd of
        Return res \<Rightarrow> res
      | Continue co' prevState' g' rd' \<Rightarrow> Read_loop e setUUID fileID co' prevState' g' rd')"
  by pat_completeness auto
termination
  by (relation "measure (\<lambda>(e, setUUID, fileID, co, prevState, g, rd). remaining rd)")
     (auto dest: Read_body_Continue_advance advance_None)

declare Read_loop.simps [simp del]

definition Read :: "env \<Rightarrow> bool \<Rightarrow> gostring \<Rightarrow> world \<Rightarrow> Reader \<Rightarrow> ReadResult" where
  "Read e setUUID fileID g rd = Read_loop e setUUID fileID None IO_OBJ_OUT g rd"

section \<open>Progress of the reader\<close>

lemma Read_loop_Return:
  "Read_body e setUUID fileID co prevState g rd = Return res \<Longrightarrow>
   Read_loop e setUUID fileID co prevState g rd = res"
  by (subst Read_loop.simps) simp

lemma Read_loop_Continue:
  "Read_body e setUUID fileID co prevState g rd = Continue co' prevState' g' rd' \<Longrightarrow>
   Read_loop e setUUID fileID co prevState g rd = Read_loop e setUUID fileID co' prevState' g' rd'"
  by (subst Read_loop.simps) simp

text \<open>
  A call of \<^verbatim>\<open>Read\<close> that returns leaves no more of the stream than it found,
  and less unless it returns \<^verbatim>\<open>io.EOF\<close>.
\<close>

lemma Read_body_Return_remaining:
  assumes "Read_body e setUUID fileID co prevState g rd = Return (Ret (co', err, g', rd'))"
  shows "remaining rd' \<le> remaining rd \<and> (err \<noteq> Some EOF \<longrightarrow> remaining rd' < remaining rd) \<and>
         set (later rd') \<subseteq> set (later rd)"
proof -
  obtain fs st er rd1 where pl: "parseLine e rd = (fs, st, er, rd1)"
    by (cases "parseLine e rd") auto
  have a: "advance rd er rd1" using pl by (rule parseLine_advance)
  have rd1: "rd' = rd1"
    using assms pl
    by (auto simp: Read_body_def Let_def split: if_splits IoState.splits prod.splits)
  have "fs \<noteq> [] \<or> err = er"
    using assms pl
    by (auto simp: Read_body_def Let_def split: if_splits IoState.splits prod.splits)
  then have "err \<noteq> Some EOF \<longrightarrow> remaining rd' < remaining rd"
    using parseLine_fields_remaining [OF pl] a rd1 by (auto simp: advance_def)
  then show ?thesis using a rd1 by (simp add: advance_def)
qed

lemma Read_loop_remaining:
  "Read_loop e setUUID fileID co prevState g rd = Ret (co', err, g', rd') \<Longrightarrow>
   remaining rd' \<le> remaining rd \<and> (err \<noteq> Some EOF \<longrightarrow> remaining rd' < remaining rd) \<and>
   set (later rd') \<subseteq> set (later rd)"
proof (induction e setUUID fileID co prevState g rd rule: Read_loop.induct)
  case (1 e setUUID fileID co prevState g rd)
  show ?case
  proof (cases "Read_body e setUUID fileID co prevState g rd")
    case (Return res)
    then have "res = Ret (co', err, g', rd')"
      using "1.prems"(1) Read_loop_Return by simp
    then show ?thesis
      using Return Read_body_Return_remaining by blast
  next
    case (Continue co1 ps1 g1 rd1)
    then have "Read_loop e setUUID fileID co1 ps1 g1 rd1 = Ret (co', err, g', rd')"
      using "1.prems"(1) Read_loop_Continue by simp
    then have "remaining rd' \<le> remaining rd1 \<and> set (later rd') \<subseteq> set (later rd1)"
      using "1.IH" [OF Continue] by simp
    moreover have "remaining rd1 < remaining rd \<and> set (later rd1) \<subseteq> set (later rd)"
      using Read_body_Continue_advance [OF Continue] by (auto simp: advance_def)
    ultimately show ?thesis by auto
  qed
qed

lemma Read_remaining:
  "Read e setUUID fileID g rd = Ret (co', err, g', rd') \<Longrightarrow>
   remaining rd' \<le> remaining rd \<and> (err \<noteq> Some EOF \<longrightarrow> remaining rd' < remaining rd) \<and>
   set (later rd') \<subseteq> set (later rd)"
  unfolding Read_def by (rule Read_loop_remaining)

section \<open>Reading a whole stream\<close>

text \<open>
  \<^verbatim>\<open>CfgMap\<close>, a Go map from identity to object, and \<^verbatim>\<open>ReadAllMap\<close>:
  one round of its loop, which calls \<^verbatim>\<open>Read\<close> with
  \<^verbatim>\<open>setUUID = true\<close>, and the loop.
\<close>

type_synonym CfgMap = "UUID \<rightharpoonup> CfgObj"

datatype MapStep =
  MapReturn "(CfgMap \<times> goerror option \<times> world \<times> Reader) outcome"
| MapNext CfgMap world Reader

definition ReadAllMap_body :: "env \<Rightarrow> gostring \<Rightarrow> CfgMap \<Rightarrow> world \<Rightarrow> Reader \<Rightarrow> MapStep" where
  "ReadAllMap_body e fileID m g rd =
     (case Read e True fileID g rd of
        Panic \<Rightarrow> MapReturn Panic
      | Ret (obj, err, g', rd') \<Rightarrow>
          (let m' = (case obj of
                       Some ob \<Rightarrow> if err = None then m(UUID ob \<mapsto> ob) else m
                     | None \<Rightarrow> m) in
           case err of
             Some er \<Rightarrow>
               if er \<noteq> EOF then MapReturn (Ret (m', Some er, g', rd'))
               else MapReturn (Ret (m', None, g', rd'))
           | None \<Rightarrow> MapNext m' g' rd'))"

lemma ReadAllMap_body_remaining:
  "ReadAllMap_body e fileID m g rd = MapNext m' g' rd' \<Longrightarrow> remaining rd' < remaining rd"
  by (auto simp: ReadAllMap_body_def Let_def split: outcome.splits option.splits if_splits
      dest: Read_remaining)

function ReadAllMap_loop ::
  "env \<Rightarrow> gostring \<Rightarrow> CfgMap \<Rightarrow> world \<Rightarrow> Reader \<Rightarrow>
   (CfgMap \<times> goerror option \<times> world \<times> Reader) outcome" where
  "ReadAllMap_loop e fileID m g rd =
     (case ReadAllMap_body e fileID m g rd of
        MapReturn res \<Rightarrow> res
      | MapNext m' g' rd' \<Rightarrow> ReadAllMap_loop e fileID m' g' rd')"
  by pat_completeness auto
termination
  by (relation "measure (\<lambda>(e, fileID, m, g, rd). remaining rd)")
     (auto intro: ReadAllMap_body_remaining)

declare ReadAllMap_loop.simps [simp del]

definition ReadAllMap ::
  "env \<Rightarrow> gostring \<Rightarrow> world \<Rightarrow> Reader \<Rightarrow> (CfgMap \<times> goerror option \<times> world \<times> Reader) outcome" where
  "ReadAllMap e fileID g rd = ReadAllMap_loop e fileID Map.empty g rd"







section \<open>Printing\<close>

text \<open>
  \<^verbatim>\<open>Print\<close> with \<^verbatim>\<open>sorted = false\<close>. The format of a property line is
  \<^verbatim>\<open>prefix + "%-" + Align + "s%s\n"\<close>: the key, padded with spaces on the right
  to \<open>Align\<close> runes, then the value. \<^verbatim>\<open>PrintProps\<close> ranges over the Go map
  in an order the runtime chooses; the order is the parameter \<open>ks\<close>, a list of the
  keys.
\<close>

definition prop_line :: "CfgObj \<Rightarrow> gostring \<Rightarrow> gostring \<Rightarrow> gostring" where
  "prop_line co k v =
     replicate (Indent co) SPACE @ k @ replicate (Align co - length k) SPACE @ v @ [LF]"

definition PrintProps :: "CfgObj \<Rightarrow> gostring list \<Rightarrow> gostring" where
  "PrintProps co ks =
     concat (map (\<lambda>k. case Props co k of Some v \<Rightarrow> prop_line co k v | None \<Rightarrow> []) ks)"

definition Print :: "env \<Rightarrow> gostring list \<Rightarrow> CfgObj \<Rightarrow> gostring" where
  "Print e ks co =
     generateComment e co @ [LF] @
     runes ''define '' @ CfgType_String e (Type co) @ [LBRACE, LF] @
     PrintProps co ks @
     replicate (Indent co) SPACE @ [RBRACE, LF]"

section \<open>Sample values of the package parameters\<close>

text \<open>
  Concrete values for the parameters, used to run the model on concrete inputs:
  a threshold and an alignment of 32 columns, an indent of 4, and the object
  types \<^verbatim>\<open>service\<close> and \<^verbatim>\<open>host\<close>.
\<close>

definition sample_env :: env where
  "sample_env =
     \<lparr>DEF_ALIGN = 32, DEF_INDENT = 4, NEW_ALIGN = 32,
      CfgName_Type = (\<lambda>s. if s = runes ''service'' then T_KIND 8
                           else if s = runes ''host'' then T_KIND 5 else T_INVALID),
      CfgType_String = (\<lambda>t. if t = T_KIND 8 then runes ''service''
                           else if t = T_KIND 5 then runes ''host'' else runes ''invalid''),
      generateComment = (\<lambda>co. runes ''# '' @
                           (if Type co = T_KIND 8 then runes ''service'' else runes ''host''))\<rparr>"

definition sample_world :: world where
  "sample_world = \<lparr>uuidorder = [], uuidgen = 0\<rparr>"

text \<open>A service with one property.\<close>

definition sample_obj :: CfgObj where
  "sample_obj =
     \<lparr>Type = T_KIND 8, UUID = NoUUID, Props = [runes ''host_name'' \<mapsto> runes ''h1''],
      FileID = [], Indent = 4, Align = 32\<rparr>"

text \<open>The equations that run the model on a concrete input.\<close>

lemmas run_defs =
  runes_def NewReader_def ReadRune_def UnreadRune_def Reader_error_def readRune_def
  IsSpace_def skip.simps skipSpace.simps accumulate.simps parseFields_def
  parseLine_loop.simps parseLine_def NewCfgObj_def NewCfgObjWithUUID_def CfgObj_Add_def
  Read_body_def Read_loop.simps Read_def

section \<open>Notions used in the statements\<close>

text \<open>
  The single-space join of fields: the first field, and each further field after one
  space.
\<close>

fun spaced :: "gostring list \<Rightarrow> gostring" where
  "spaced [] = []"
| "spaced (v # vs) = v @ concat (map (\<lambda>u. SPACE # u) vs)"

text \<open>
  The object that \<^verbatim>\<open>Read\<close> creates at a header, and the package state after it.
\<close>

definition start_obj :: "env \<Rightarrow> bool \<Rightarrow> gostring \<Rightarrow> CfgType \<Rightarrow> world \<Rightarrow> CfgObj \<times> world" where
  "start_obj e setUUID fileID ct g =
     (case (if setUUID then
              (case NewCfgObjWithUUID e ct g of (c, g') \<Rightarrow>
                 (c, g'\<lparr>uuidorder := uuidorder g' @ [UUID c]\<rparr>))
            else (NewCfgObj e ct, g)) of (c, g') \<Rightarrow>
        (if fileID \<noteq> [] then c\<lparr>FileID := fileID\<rparr> else c, g'))"

text \<open>
  What a call of \<^verbatim>\<open>Read\<close> meets, line by line. Before a block: lines that
  it passes over, which are lines without fields (blank lines and comment lines) and
  property lines outside a block. Inside the block of the object \<open>c\<close>: up to the
  first line classified \<^verbatim>\<open>IO_OBJ_END\<close>, a property line with two or more fields
  adds its first field with the single-space join of the others, and the lines
  without fields, the property lines with one field and the lines classified
  \<^verbatim>\<open>IO_OBJ_BEGIN\<close> are passed over.
\<close>

inductive skips :: "env \<Rightarrow> Reader \<Rightarrow> Reader \<Rightarrow> bool" for e where
  skips_none: "skips e rd rd"
| skips_line: "parseLine e rd = (fs, st, None, rd1) \<Longrightarrow> fs = [] \<or> st = IO_OBJ_IN \<Longrightarrow>
     skips e rd1 rd' \<Longrightarrow> skips e rd rd'"

inductive assembles :: "env \<Rightarrow> CfgObj \<Rightarrow> Reader \<Rightarrow> CfgObj \<Rightarrow> Reader \<Rightarrow> bool" for e where
  assembles_end: "parseLine e rd = (fs, IO_OBJ_END, err, rd') \<Longrightarrow> assembles e c rd c rd'"
| assembles_prop: "parseLine e rd = (fs, IO_OBJ_IN, None, rd1) \<Longrightarrow> 2 \<le> length fs \<Longrightarrow>
     assembles e (CfgObj_Add (hd fs) (spaced (tl fs)) c) rd1 c' rd' \<Longrightarrow>
     assembles e c rd c' rd'"
| assembles_skip: "parseLine e rd = (fs, st, None, rd1) \<Longrightarrow>
     fs = [] \<or> st = IO_OBJ_BEGIN \<or> (st = IO_OBJ_IN \<and> length fs < 2) \<Longrightarrow>
     assembles e c rd1 c' rd' \<Longrightarrow> assembles e c rd c' rd'"

text \<open>
  The errors of a call that returns at the reader \<open>rd'\<close>, having begun at \<open>rd\<close>:
  \<^verbatim>\<open>io.EOF\<close>, a read error of the stream, or a \<^verbatim>\<open>ParseError\<close> at the line
  and column of the reader.
\<close>

definition Read_error :: "Reader \<Rightarrow> goerror \<Rightarrow> Reader \<Rightarrow> bool" where
  "Read_error rd x rd' \<longleftrightarrow>
     x = EOF \<or> x \<in> fst ` set (later rd) \<or> x = ParseError (line rd') (column rd') ErrUnknown"

text \<open>The outcomes of a call that returns.\<close>

definition Read_meets ::
  "env \<Rightarrow> bool \<Rightarrow> gostring \<Rightarrow> world \<Rightarrow> Reader \<Rightarrow> CfgObj option \<Rightarrow> world \<Rightarrow> Reader \<Rightarrow> bool" where
  "Read_meets e setUUID fileID g rd co' g' rd' \<longleftrightarrow>
     (co' = None \<and> g' = g \<and>
        (\<exists>rdk fs. skips e rd rdk \<and> parseLine e rdk = (fs, IO_OBJ_END, None, rd')))
     \<or> (\<exists>rdh fs rdb c0 c.
           skips e rd rdh \<and> parseLine e rdh = (fs, IO_OBJ_BEGIN, None, rdb) \<and>
           2 \<le> length fs \<and> CfgName_Type e (fs ! 1) \<noteq> T_INVALID \<and>
           start_obj e setUUID fileID (CfgName_Type e (fs ! 1)) g = (c0, g') \<and>
           assembles e c0 rdb c rd' \<and> co' = Some c)"

text \<open>
  Identities. An object's identifier is well issued from \<open>n0\<close> on when the generator
  gave it out at or after \<open>n0\<close> and the global order slice holds it; the package
  state only grows; a map is well keyed when every entry is stored under its own,
  well-issued identifier.
\<close>

definition uuid_ok :: "nat \<Rightarrow> world \<Rightarrow> CfgObj \<Rightarrow> bool" where
  "uuid_ok n0 g c \<longleftrightarrow>
     (\<exists>n. UUID c = U n \<and> n0 \<le> n \<and> n < uuidgen g \<and> U n \<in> set (uuidorder g))"

definition world_le :: "world \<Rightarrow> world \<Rightarrow> bool" where
  "world_le g g' \<longleftrightarrow> uuidgen g \<le> uuidgen g' \<and> set (uuidorder g) \<subseteq> set (uuidorder g')"

definition map_ok :: "nat \<Rightarrow> world \<Rightarrow> CfgMap \<Rightarrow> bool" where
  "map_ok n0 g m \<longleftrightarrow> (\<forall>u ob. m u = Some ob \<longrightarrow> UUID ob = u \<and> uuid_ok n0 g ob)"

text \<open>
  Fields as the scanner sees them. A blank is whitespace other than the two line-end
  runes. A field that begins at column \<open>c\<close> is not empty, begins with neither
  whitespace nor a brace, and holds no whitespace and an opening brace only beyond
  the threshold \<open>al\<close>. A rune stops a field at column \<open>c\<close> when it is whitespace
  (a carriage return is looked at with the rune after it) or an opening brace within
  the threshold. A line ends with a newline, alone or after a carriage return.
\<close>

definition blank :: "rune \<Rightarrow> bool" where
  "blank c \<longleftrightarrow> IsSpace c \<and> c \<noteq> LF \<and> c \<noteq> CR"

fun rest_ok :: "int \<Rightarrow> int \<Rightarrow> gostring \<Rightarrow> bool" where
  "rest_ok al c [] = True"
| "rest_ok al c (x # xs) = (\<not> IsSpace x \<and> (x = LBRACE \<longrightarrow> al < c) \<and> rest_ok al (c + 1) xs)"

definition field_ok :: "int \<Rightarrow> int \<Rightarrow> gostring \<Rightarrow> bool" where
  "field_ok al c w =
     (case w of
        [] \<Rightarrow> False
      | x # xs \<Rightarrow> \<not> IsSpace x \<and> x \<noteq> LBRACE \<and> x \<noteq> RBRACE \<and> rest_ok al (c + 1) xs)"

definition stops :: "int \<Rightarrow> int \<Rightarrow> rune \<Rightarrow> bool" where
  "stops al c s \<longleftrightarrow> (IsSpace s \<and> s \<noteq> CR) \<or> (s = LBRACE \<and> c \<le> al)"

definition eolp :: "gostring \<Rightarrow> rune \<Rightarrow> bool" where
  "eolp k s \<longleftrightarrow> k = [] \<or> (k = [CR] \<and> s = LF)"

text \<open>
  The fields of a line, each with the blanks that follow it: their text, and when
  they are well formed from column \<open>c\<close> on (blanks separate two fields). The state a
  line is given by the delimiter that ends it.
\<close>

fun toks_text :: "(gostring \<times> gostring) list \<Rightarrow> gostring" where
  "toks_text [] = []"
| "toks_text ((w, ws) # ts) = w @ ws @ toks_text ts"

fun toks_ok :: "int \<Rightarrow> int \<Rightarrow> (gostring \<times> gostring) list \<Rightarrow> bool" where
  "toks_ok al c [] = True"
| "toks_ok al c ((w, ws) # ts) =
     (field_ok al c w \<and> (\<forall>x\<in>set ws. blank x) \<and> (ts \<noteq> [] \<longrightarrow> ws \<noteq> []) \<and>
      toks_ok al (c + int (length w) + int (length ws)) ts)"

definition line_state :: "rune \<Rightarrow> IoState" where
  "line_state T = (if T = LF then IO_OBJ_IN else if T = LBRACE then IO_OBJ_BEGIN else IO_OBJ_END)"

text \<open>
  Source lines: a comment line (the comment marker first, then any runes up to the
  newline), or a line of leading blanks and fields, ended by LF or by CR LF. A field
  line whose first rune is the comment marker is a comment line, not a field line.
  A line with two or more fields adds a property to the object under construction.
\<close>

datatype srcline =
  CommentLine gostring
| FieldLine gostring "(gostring \<times> gostring) list" bool

fun line_text :: "srcline \<Rightarrow> gostring" where
  "line_text (CommentLine cmt) = HASH # cmt @ [LF]"
| "line_text (FieldLine lead ts crlf) =
     lead @ toks_text ts @ (if crlf then [CR, LF] else [LF])"

fun line_ok :: "int \<Rightarrow> srcline \<Rightarrow> bool" where
  "line_ok al (CommentLine cmt) = (LF \<notin> set cmt)"
| "line_ok al (FieldLine lead ts crlf) =
     ((\<forall>x\<in>set lead. blank x) \<and> toks_ok al (int (length lead)) ts \<and>
      (lead = [] \<longrightarrow> ts \<noteq> [] \<longrightarrow> hd (fst (hd ts)) \<noteq> HASH))"

fun line_fields :: "srcline \<Rightarrow> gostring list" where
  "line_fields (CommentLine cmt) = []"
| "line_fields (FieldLine lead ts crlf) = map fst ts"

definition add_line :: "srcline \<Rightarrow> CfgObj \<Rightarrow> CfgObj" where
  "add_line l co =
     (if length (line_fields l) < 2 then co
      else CfgObj_Add (line_fields l ! 0) (Join (drop 1 (line_fields l)) [SPACE]) co)"

definition lines_text :: "srcline list \<Rightarrow> gostring" where
  "lines_text ls = concat (map line_text ls)"

definition add_lines :: "srcline list \<Rightarrow> CfgObj \<Rightarrow> CfgObj" where
  "add_lines ls co = foldl (\<lambda>c l. add_line l c) co ls"

text \<open>
  The properties that a list of lines stands for, in the order of the lines.
\<close>

definition is_prop :: "srcline \<Rightarrow> bool" where
  "is_prop l \<longleftrightarrow> 2 \<le> length (line_fields l)"

definition prop_of :: "srcline \<Rightarrow> gostring \<times> gostring" where
  "prop_of l = (line_fields l ! 0, Join (drop 1 (line_fields l)) [SPACE])"

definition props_of :: "srcline list \<Rightarrow> (gostring \<times> gostring) list" where
  "props_of ls = map prop_of (filter is_prop ls)"

text \<open>
  A header \<^verbatim>\<open>define <type>{\<close>: leading blanks, the keyword, blanks, the type name,
  optional blanks, the brace; with no blanks before it the brace must lie within the
  threshold to end the type name. A block is lines before the header, the header, the
  lines of the body, blanks and the closing brace, and the lines after it.
\<close>

definition header_text :: "gostring \<Rightarrow> gostring \<Rightarrow> gostring \<Rightarrow> gostring \<Rightarrow> gostring" where
  "header_text lead ws1 ty ws2 = lead @ runes ''define'' @ ws1 @ ty @ ws2 @ [LBRACE]"

definition header_ok :: "int \<Rightarrow> gostring \<Rightarrow> gostring \<Rightarrow> gostring \<Rightarrow> gostring \<Rightarrow> bool" where
  "header_ok al lead ws1 ty ws2 \<longleftrightarrow>
     (\<forall>x\<in>set lead. blank x) \<and>
     toks_ok al (int (length lead)) [(runes ''define'', ws1), (ty, ws2)] \<and>
     (ws2 = [] \<longrightarrow> int (length (lead @ runes ''define'' @ ws1 @ ty)) \<le> al)"

definition block_text ::
  "srcline list \<Rightarrow> gostring \<Rightarrow> gostring \<Rightarrow> gostring \<Rightarrow> gostring \<Rightarrow> srcline list \<Rightarrow> gostring \<Rightarrow>
   srcline list \<Rightarrow> gostring" where
  "block_text pre lead ws1 ty ws2 body foot post =
     lines_text pre @ header_text lead ws1 ty ws2 @ lines_text body @ foot @ [RBRACE] @
     lines_text post"

text \<open>
  The line that \<^verbatim>\<open>PrintProps\<close> writes for a key and the fields of its value. A plain
  field is not empty, holds no whitespace and does not begin with a brace.
\<close>

definition plain_field :: "gostring \<Rightarrow> bool" where
  "plain_field w \<longleftrightarrow> w \<noteq> [] \<and> (\<forall>x\<in>set w. \<not> IsSpace x) \<and> hd w \<noteq> LBRACE \<and> hd w \<noteq> RBRACE"

fun val_toks :: "gostring list \<Rightarrow> (gostring \<times> gostring) list" where
  "val_toks [] = []"
| "val_toks [v] = [(v, [])]"
| "val_toks (v # u # vs) = (v, [SPACE]) # val_toks (u # vs)"

definition print_line :: "CfgObj \<Rightarrow> gostring \<Rightarrow> gostring list \<Rightarrow> srcline" where
  "print_line co k vs =
     FieldLine (replicate (Indent co) SPACE)
       ((k, replicate (Align co - length k) SPACE) # val_toks vs) False"

text \<open>
  An object whose key is as long as the alignment width.
\<close>

definition long_key :: gostring where
  "long_key = runes ''aaaaaaaaaaaaaaaaaaaaaaaaaaaaaaaa''"

definition long_key_obj :: CfgObj where
  "long_key_obj =
     \<lparr>Type = T_KIND 8, UUID = NoUUID, Props = [long_key \<mapsto> runes ''v''],
      FileID = [], Indent = 4, Align = 32\<rparr>"

text \<open>
  The shape of the properties that \<^verbatim>\<open>Read\<close> builds: finitely many, each key a plain
  field and each value a single-space join of one or more plain fields.
\<close>

definition value_ok :: "gostring \<Rightarrow> bool" where
  "value_ok v \<longleftrightarrow> (\<exists>vs. vs \<noteq> [] \<and> (\<forall>x\<in>set vs. plain_field x) \<and> v = Join vs [SPACE])"

definition props_shaped :: "(gostring \<rightharpoonup> gostring) \<Rightarrow> bool" where
  "props_shaped m \<longleftrightarrow>
     finite (dom m) \<and> (\<forall>k v. m k = Some v \<longrightarrow> plain_field k \<and> value_ok v)"

definition obj_shaped :: "CfgObj option \<Rightarrow> bool" where
  "obj_shaped co \<longleftrightarrow>
     (\<forall>c. co = Some c \<longrightarrow> props_shaped (Props c) \<and> Type c \<noteq> T_INVALID)"

text \<open>
  Two readers on inputs that differ in one place: they are tied while what they have
  yet to read is the same, or begins with the same lines, after which one input goes
  on with \<open>s1\<close> and the other with \<open>s2\<close>; they are apart when they have come to
  that place.
\<close>

definition tied :: "rune list \<Rightarrow> rune list \<Rightarrow> Reader \<Rightarrow> Reader \<Rightarrow> bool" where
  "tied s1 s2 rd1 rd2 \<longleftrightarrow>
     Comment rd1 = Comment rd2 \<and> later rd1 = later rd2 \<and>
     (buf rd1 = buf rd2 \<or>
      (\<exists>p. p \<noteq> [] \<and> last p = LF \<and> buf rd1 = p @ s1 \<and> buf rd2 = p @ s2))"

definition apart :: "rune list \<Rightarrow> rune list \<Rightarrow> Reader \<Rightarrow> Reader \<Rightarrow> bool" where
  "apart s1 s2 rd1 rd2 \<longleftrightarrow>
     Comment rd1 = Comment rd2 \<and> later rd1 = later rd2 \<and> buf rd1 = s1 \<and> buf rd2 = s2"

text \<open>
  What a call of \<^verbatim>\<open>Read\<close> returns, without the reader it leaves and without the
  line number of a \<^verbatim>\<open>ParseError\<close> (the line counter counts every line read).
\<close>

definition unplaced :: "goerror \<Rightarrow> goerror" where
  "unplaced x = (case x of ParseError l c k \<Rightarrow> ParseError 0 c k | _ \<Rightarrow> x)"

definition result_of :: "ReadResult \<Rightarrow> (CfgObj option \<times> goerror option \<times> world) outcome" where
  "result_of r =
     (case r of Panic \<Rightarrow> Panic | Ret (co, err, g, rd) \<Rightarrow> Ret (co, map_option unplaced err, g))"

section \<open>The rune reader\<close>

lemma readRune_Nil:
  "buf rd = [] \<Longrightarrow> later rd = [] \<Longrightarrow>
   readRune rd = (0, Some EOF, rd\<lparr>lastRune := None, column := column rd + 1\<rparr>)"
  by (simp add: readRune_def ReadRune_def)

lemma readRune_plain:
  "buf rd = c # cs \<Longrightarrow> c \<noteq> CR \<Longrightarrow> c \<noteq> LF \<Longrightarrow>
   readRune rd = (c, None, rd\<lparr>buf := cs, lastRune := Some c, column := column rd + 1\<rparr>)"
  by (simp add: readRune_def ReadRune_def)

lemma readRune_LF:
  "buf rd = LF # cs \<Longrightarrow>
   readRune rd = (LF, None, rd\<lparr>buf := cs, lastRune := Some LF,
     inputline := inputline rd + 1, column := column rd + 1\<rparr>)"
  by (simp add: readRune_def ReadRune_def)

lemma readRune_CR_other:
  "buf rd = CR # c # cs \<Longrightarrow> c \<noteq> LF \<Longrightarrow>
   readRune rd = (CR, None, rd\<lparr>buf := c # cs, lastRune := None, column := column rd + 1\<rparr>)"
  by (simp add: readRune_def ReadRune_def UnreadRune_def)

text \<open>
  C6 (the code departs from the claim). \<^verbatim>\<open>readRune\<close> collapses a CR LF pair
  into one newline rune, but the newline so consumed does not increment
  \<open>inputline\<close>: the counter is incremented only in the branch of a bare LF. And a
  CR that ends the input (nothing comes later in the stream) is not passed through:
  the call returns the rune 0 with \<^verbatim>\<open>io.EOF\<close>.
\<close>

theorem readRune_CRLF_keeps_inputline:
  "readRune (rd\<lparr>buf := CR # LF # cs\<rparr>) =
     (LF, None, rd\<lparr>buf := cs, lastRune := Some LF, column := column rd + 1\<rparr>) \<and>
   inputline (snd (snd (readRune (rd\<lparr>buf := CR # LF # cs\<rparr>)))) = inputline rd \<and>
   readRune (rd\<lparr>buf := [CR], later := []\<rparr>) =
     (0, Some EOF, rd\<lparr>buf := [], later := [], lastRune := None, column := column rd + 1\<rparr>)"
  by (simp add: readRune_def ReadRune_def UnreadRune_def)

section \<open>Reading concrete inputs\<close>

text \<open>
  C7. Reading \<^verbatim>\<open>"define bogus{\n}\n"\<close>, where \<^verbatim>\<open>bogus\<close> names no object
  type, returns no object and the positioned error \<^verbatim>\<open>ErrUnknown\<close> at line 1
  (column 12, where the brace was read). The brace is read as the block opener when
  column 12 is within the threshold \<^verbatim>\<open>DEF_ALIGN\<close>.
\<close>

theorem Read_bogus_type:
  "12 \<le> DEF_ALIGN e \<Longrightarrow> CfgName_Type e (runes ''bogus'') = T_INVALID \<Longrightarrow>
   Read e setUUID fileID g (NewReader (runes ''define bogus{\<newline>}\<newline>'') []) =
     Ret (None, Some (ParseError 1 12 ErrUnknown), g,
       \<lparr>Comment = HASH, line = 1, inputline = 0, column = 12, field = runes ''bogus'',
        buf = runes ''\<newline>}\<newline>'', lastRune = Some LBRACE, later = []\<rparr>)"
  by (simp add: run_defs)

theorem Read_bogus_type_witness:
  "12 \<le> DEF_ALIGN sample_env \<and> CfgName_Type sample_env (runes ''bogus'') = T_INVALID \<and>
   Read sample_env False [] sample_world (NewReader (runes ''define bogus{\<newline>}\<newline>'') []) =
     Ret (None, Some (ParseError 1 12 ErrUnknown), sample_world,
       \<lparr>Comment = HASH, line = 1, inputline = 0, column = 12, field = runes ''bogus'',
        buf = runes ''\<newline>}\<newline>'', lastRune = Some LBRACE, later = []\<rparr>)"
proof -
  have a: "12 \<le> DEF_ALIGN sample_env" by (simp add: sample_env_def)
  have b: "CfgName_Type sample_env (runes ''bogus'') = T_INVALID"
    by (simp add: sample_env_def runes_def)
  show ?thesis using a b Read_bogus_type [OF a b, of False "[]" sample_world] by simp
qed

text \<open>
  C3 (the code departs from the claim). A header line with a single field before
  the brace, as in \<^verbatim>\<open>"define{\n"\<close>, makes \<^verbatim>\<open>Read\<close> index
  \<^verbatim>\<open>fields[1]\<close> of a one-element slice: the call panics.
\<close>

theorem Read_panics_on_short_header:
  "6 \<le> DEF_ALIGN e \<Longrightarrow>
   Read e setUUID fileID g (NewReader (runes ''define{\<newline>'') []) = Panic"
  by (simp add: run_defs)

theorem Read_panics_on_short_header_witness:
  "6 \<le> DEF_ALIGN sample_env \<and>
   Read sample_env False [] sample_world (NewReader (runes ''define{\<newline>'') []) = Panic"
proof -
  have a: "6 \<le> DEF_ALIGN sample_env" by (simp add: sample_env_def)
  show ?thesis using a Read_panics_on_short_header [OF a, of False "[]" sample_world] by simp
qed

section \<open>The outcomes of Read\<close>

lemma parseFields_RBRACE_field:
  "parseFields e rd = (h, RBRACE, err, rd') \<Longrightarrow> h"
  by (auto simp: parseFields_def split: if_splits prod.splits)

lemma parseLine_loop_END_fields:
  "parseLine_loop e fs rd = (fs', IO_OBJ_END, err, rd') \<Longrightarrow> fs' \<noteq> []"
proof (induction e fs rd arbitrary: fs' err rd' rule: parseLine_loop.induct)
  case (1 e fs rd)
  obtain h d e1 rd1 where pf: "parseFields e rd = (h, d, e1, rd1)"
    by (cases "parseFields e rd") auto
  show ?case
  proof (cases "d = RBRACE")
    case True
    then have "h" using parseFields_RBRACE_field pf by blast
    then show ?thesis
      using "1.prems" pf True by (subst (asm) parseLine_loop.simps) (auto simp: Let_def)
  next
    case False
    then have c: "d \<noteq> LBRACE \<and> d \<noteq> RBRACE \<and> d \<noteq> LF \<and> e1 = None"
      using "1.prems" pf by (subst (asm) parseLine_loop.simps) (auto simp: Let_def split: if_splits)
    then have "parseLine_loop e (if h then fs @ [field rd1] else fs) rd1 = (fs', IO_OBJ_END, err, rd')"
      using "1.prems" pf by (subst (asm) parseLine_loop.simps) (simp add: Let_def)
    then show ?thesis
      using "1.IH" [OF pf [symmetric] refl refl refl] c by simp
  qed
qed

lemma parseLine_END_fields:
  "parseLine e rd = (fs, IO_OBJ_END, err, rd') \<Longrightarrow> fs \<noteq> []"
proof -
  assume pl: "parseLine e rd = (fs, IO_OBJ_END, err, rd')"
  let ?rd = "rd\<lparr>line := line rd + 1, column := - 1\<rparr>"
  obtain c e1 rd1 where rr: "ReadRune ?rd = (c, e1, rd1)"
    by (cases "ReadRune ?rd") auto
  have "parseLine_loop e [] (UnreadRune rd1) = (fs, IO_OBJ_END, err, rd')"
    using pl rr by (simp add: parseLine_def split: if_splits prod.splits)
  then show ?thesis by (rule parseLine_loop_END_fields)
qed

lemma Join_spaced: "Join vs [SPACE] = spaced vs"
  by (induction vs "[SPACE]" rule: Join.induct) auto

lemma Add_spaced:
  "2 \<le> length fs \<Longrightarrow>
   CfgObj_Add (fs ! 0) (Join (drop 1 fs) [SPACE]) c = CfgObj_Add (hd fs) (spaced (tl fs)) c"
  by (cases fs) (auto simp: Join_spaced drop_Suc)

lemma Read_body_inside:
  assumes "Read_body e setUUID fileID (Some c) IO_OBJ_BEGIN g rd = stp"
  shows "(\<exists>fs rd'. stp = Return (Ret (Some c, None, g, rd')) \<and>
            parseLine e rd = (fs, IO_OBJ_END, None, rd'))
       \<or> (\<exists>x rd'. stp = Return (Ret (None, Some x, g, rd')) \<and> Read_error rd x rd')
       \<or> (\<exists>fs rd'. stp = Continue (Some (CfgObj_Add (hd fs) (spaced (tl fs)) c)) IO_OBJ_BEGIN g rd' \<and>
            parseLine e rd = (fs, IO_OBJ_IN, None, rd') \<and> 2 \<le> length fs)
       \<or> (\<exists>fs st rd'. stp = Continue (Some c) IO_OBJ_BEGIN g rd' \<and>
            parseLine e rd = (fs, st, None, rd') \<and>
            (fs = [] \<or> st = IO_OBJ_BEGIN \<or> (st = IO_OBJ_IN \<and> length fs < 2)))"
proof -
  obtain fs st er rd1 where pl: "parseLine e rd = (fs, st, er, rd1)"
    by (cases "parseLine e rd") auto
  have st: "st \<noteq> IO_OBJ_OUT \<Longrightarrow> er = None"
    using parseLine_state_err pl by blast
  have er: "\<And>x. er = Some x \<Longrightarrow> Read_error rd x rd1"
    using parseLine_advance [OF pl] by (auto simp: advance_def Read_error_def)
  have pe: "Read_error rd (Reader_error rd1 ErrUnknown) rd1"
    by (simp add: Read_error_def Reader_error_def)
  show ?thesis
  proof (cases "fs = []")
    case True
    then show ?thesis
      using assms pl er by (cases er) (auto simp: Read_body_def)
  next
    case False
    show ?thesis
    proof (cases st)
      case IO_OBJ_OUT
      then show ?thesis using assms pl False pe by (auto simp: Read_body_def)
    next
      case IO_OBJ_BEGIN
      then show ?thesis using assms pl False st by (auto simp: Read_body_def)
    next
      case IO_OBJ_IN
      then have "er = None" using st by simp
      then show ?thesis
        using assms pl False IO_OBJ_IN Add_spaced [of fs c]
        by (cases "length fs < 2") (auto simp: Read_body_def Let_def)
    next
      case IO_OBJ_END
      then have "er = None" using st by simp
      then show ?thesis using assms pl False IO_OBJ_END by (auto simp: Read_body_def)
    qed
  qed
qed

lemma later_mono:
  "advance rd None rd1 \<Longrightarrow> Read_error rd1 x rd' \<Longrightarrow> Read_error rd x rd'"
  by (auto simp: advance_def Read_error_def)

lemma Read_loop_inside:
  "Read_loop e setUUID fileID co prevState g rd = Ret (co', err, g', rd') \<Longrightarrow>
   co = Some c \<Longrightarrow> prevState = IO_OBJ_BEGIN \<Longrightarrow>
     (err = None \<and> g' = g \<and> (\<exists>c'. co' = Some c' \<and> assembles e c rd c' rd'))
     \<or> (co' = None \<and> g' = g \<and> (\<exists>x. err = Some x \<and> Read_error rd x rd'))"
proof (induction e setUUID fileID co prevState g rd arbitrary: c rule: Read_loop.induct)
  case (1 e setUUID fileID co prevState g rd)
  let ?stp = "Read_body e setUUID fileID (Some c) IO_OBJ_BEGIN g rd"
  have rb: "Read_body e setUUID fileID co prevState g rd = ?stp"
    using "1.prems" by simp
  consider
    (fin) fs rd1 where "?stp = Return (Ret (Some c, None, g, rd1))"
      "parseLine e rd = (fs, IO_OBJ_END, None, rd1)"
  | (bad) x rd1 where "?stp = Return (Ret (None, Some x, g, rd1))" "Read_error rd x rd1"
  | (add) fs rd1 where
      "?stp = Continue (Some (CfgObj_Add (hd fs) (spaced (tl fs)) c)) IO_OBJ_BEGIN g rd1"
      "parseLine e rd = (fs, IO_OBJ_IN, None, rd1)" "2 \<le> length fs"
  | (pass) fs st rd1 where "?stp = Continue (Some c) IO_OBJ_BEGIN g rd1"
      "parseLine e rd = (fs, st, None, rd1)"
      "fs = [] \<or> st = IO_OBJ_BEGIN \<or> (st = IO_OBJ_IN \<and> length fs < 2)"
    using Read_body_inside [OF refl, of e setUUID fileID c g rd] by blast
  then show ?case
  proof cases
    case fin
    then have "Ret (co', err, g', rd') = Ret (Some c, None, g, rd1)"
      using "1.prems"(1) rb Read_loop_Return by metis
    then show ?thesis using fin(2) assembles_end by auto
  next
    case bad
    then have "Ret (co', err, g', rd') = Ret (None, Some x, g, rd1)"
      using "1.prems"(1) rb Read_loop_Return by metis
    then show ?thesis using bad(2) by auto
  next
    case add
    let ?c1 = "CfgObj_Add (hd fs) (spaced (tl fs)) c"
    have cont: "Read_body e setUUID fileID co prevState g rd = Continue (Some ?c1) IO_OBJ_BEGIN g rd1"
      using rb add(1) by simp
    then have r: "Read_loop e setUUID fileID (Some ?c1) IO_OBJ_BEGIN g rd1 = Ret (co', err, g', rd')"
      using "1.prems"(1) Read_loop_Continue by metis
    have adv: "advance rd None rd1" using cont by (rule Read_body_Continue_advance)
    from "1.IH" [OF cont r refl refl]
    show ?thesis using add(2,3) adv assembles_prop later_mono by blast
  next
    case pass
    have cont: "Read_body e setUUID fileID co prevState g rd = Continue (Some c) IO_OBJ_BEGIN g rd1"
      using rb pass(1) by simp
    then have r: "Read_loop e setUUID fileID (Some c) IO_OBJ_BEGIN g rd1 = Ret (co', err, g', rd')"
      using "1.prems"(1) Read_loop_Continue by metis
    have adv: "advance rd None rd1" using cont by (rule Read_body_Continue_advance)
    from "1.IH" [OF cont r refl refl]
    show ?thesis using pass(2,3) adv assembles_skip later_mono by blast
  qed
qed

lemma Read_body_outside:
  assumes "Read_body e setUUID fileID None IO_OBJ_OUT g rd = stp" and "stp \<noteq> Return Panic"
  shows "(\<exists>fs rd'. stp = Return (Ret (None, None, g, rd')) \<and>
            parseLine e rd = (fs, IO_OBJ_END, None, rd'))
       \<or> (\<exists>x rd'. stp = Return (Ret (None, Some x, g, rd')) \<and> Read_error rd x rd')
       \<or> (\<exists>fs rd'. stp = Continue (Some (fst (start_obj e setUUID fileID (CfgName_Type e (fs ! 1)) g)))
                    IO_OBJ_BEGIN (snd (start_obj e setUUID fileID (CfgName_Type e (fs ! 1)) g)) rd' \<and>
            parseLine e rd = (fs, IO_OBJ_BEGIN, None, rd') \<and> 2 \<le> length fs \<and>
            CfgName_Type e (fs ! 1) \<noteq> T_INVALID)
       \<or> (\<exists>fs st rd'. stp = Continue None IO_OBJ_OUT g rd' \<and>
            parseLine e rd = (fs, st, None, rd') \<and> (fs = [] \<or> st = IO_OBJ_IN))"
proof -
  obtain fs st er rd1 where pl: "parseLine e rd = (fs, st, er, rd1)"
    by (cases "parseLine e rd") auto
  have st: "st \<noteq> IO_OBJ_OUT \<Longrightarrow> er = None"
    using parseLine_state_err pl by blast
  have er: "\<And>x. er = Some x \<Longrightarrow> Read_error rd x rd1"
    using parseLine_advance [OF pl] by (auto simp: advance_def Read_error_def)
  have pe: "Read_error rd (Reader_error rd1 ErrUnknown) rd1"
    by (simp add: Read_error_def Reader_error_def)
  show ?thesis
  proof (cases "fs = []")
    case True
    then show ?thesis
      using assms pl er by (cases er) (auto simp: Read_body_def)
  next
    case False
    show ?thesis
    proof (cases st)
      case IO_OBJ_OUT
      then show ?thesis using assms pl False pe by (auto simp: Read_body_def)
    next
      case IO_OBJ_BEGIN
      then have "er = None" using st by simp
      then show ?thesis
        using assms pl False IO_OBJ_BEGIN pe
        by (auto simp: Read_body_def Let_def start_obj_def split: if_splits prod.splits)
    next
      case IO_OBJ_IN
      then have "er = None" using st by simp
      then show ?thesis using assms pl False IO_OBJ_IN by (auto simp: Read_body_def)
    next
      case IO_OBJ_END
      then have "er = None" using st by simp
      then show ?thesis using assms pl False IO_OBJ_END by (auto simp: Read_body_def)
    qed
  qed
qed

lemma skips_meets:
  assumes "parseLine e rd = (fs, st, None, rd1)" and "fs = [] \<or> st = IO_OBJ_IN"
    and "Read_meets e setUUID fileID g rd1 co' g' rd'"
  shows "Read_meets e setUUID fileID g rd co' g' rd'"
  using assms(3) skips_line [OF assms(1,2)] unfolding Read_meets_def by blast

lemma Read_loop_outside:
  "Read_loop e setUUID fileID co prevState g rd = Ret (co', err, g', rd') \<Longrightarrow>
   co = None \<Longrightarrow> prevState = IO_OBJ_OUT \<Longrightarrow>
     (err = None \<and> Read_meets e setUUID fileID g rd co' g' rd')
     \<or> (co' = None \<and> (\<exists>x. err = Some x \<and> Read_error rd x rd'))"
proof (induction e setUUID fileID co prevState g rd rule: Read_loop.induct)
  case (1 e setUUID fileID co prevState g rd)
  let ?stp = "Read_body e setUUID fileID None IO_OBJ_OUT g rd"
  have rb: "Read_body e setUUID fileID co prevState g rd = ?stp"
    using "1.prems" by simp
  have np: "?stp \<noteq> Return Panic"
    using "1.prems"(1) rb Read_loop_Return by fastforce
  let ?ct = "\<lambda>fs. CfgName_Type e (fs ! 1)"
  consider
    (fin) fs rd1 where "?stp = Return (Ret (None, None, g, rd1))"
      "parseLine e rd = (fs, IO_OBJ_END, None, rd1)"
  | (bad) x rd1 where "?stp = Return (Ret (None, Some x, g, rd1))" "Read_error rd x rd1"
  | (hdr) fs rd1 where
      "?stp = Continue (Some (fst (start_obj e setUUID fileID (?ct fs) g))) IO_OBJ_BEGIN
                (snd (start_obj e setUUID fileID (?ct fs) g)) rd1"
      "parseLine e rd = (fs, IO_OBJ_BEGIN, None, rd1)" "2 \<le> length fs" "?ct fs \<noteq> T_INVALID"
  | (pass) fs st rd1 where "?stp = Continue None IO_OBJ_OUT g rd1"
      "parseLine e rd = (fs, st, None, rd1)" "fs = [] \<or> st = IO_OBJ_IN"
    using Read_body_outside [OF refl np] by blast
  then show ?case
  proof cases
    case fin
    then have "Ret (co', err, g', rd') = Ret (None, None, g, rd1)"
      using "1.prems"(1) rb Read_loop_Return by metis
    then show ?thesis using fin(2) skips_none unfolding Read_meets_def by blast
  next
    case bad
    then have "Ret (co', err, g', rd') = Ret (None, Some x, g, rd1)"
      using "1.prems"(1) rb Read_loop_Return by metis
    then show ?thesis using bad(2) by auto
  next
    case hdr
    let ?c0 = "fst (start_obj e setUUID fileID (?ct fs) g)"
    let ?g1 = "snd (start_obj e setUUID fileID (?ct fs) g)"
    have cont: "Read_body e setUUID fileID co prevState g rd = Continue (Some ?c0) IO_OBJ_BEGIN ?g1 rd1"
      using rb hdr(1) by simp
    then have r: "Read_loop e setUUID fileID (Some ?c0) IO_OBJ_BEGIN ?g1 rd1 = Ret (co', err, g', rd')"
      using "1.prems"(1) Read_loop_Continue by metis
    have adv: "advance rd None rd1" using cont by (rule Read_body_Continue_advance)
    from Read_loop_inside [OF r refl refl]
    show ?thesis
    proof
      assume a: "err = None \<and> g' = ?g1 \<and> (\<exists>c'. co' = Some c' \<and> assembles e ?c0 rd1 c' rd')"
      then obtain c' where c': "co' = Some c'" "assembles e ?c0 rd1 c' rd'" by blast
      have "start_obj e setUUID fileID (?ct fs) g = (?c0, g')" using a by simp
      then have "Read_meets e setUUID fileID g rd co' g' rd'"
        unfolding Read_meets_def using skips_none [of e rd] hdr(2,3,4) c' by blast
      then show ?thesis using a by simp
    next
      assume "co' = None \<and> g' = ?g1 \<and> (\<exists>x. err = Some x \<and> Read_error rd1 x rd')"
      then show ?thesis using adv later_mono by blast
    qed
  next
    case pass
    have cont: "Read_body e setUUID fileID co prevState g rd = Continue None IO_OBJ_OUT g rd1"
      using rb pass(1) by simp
    then have r: "Read_loop e setUUID fileID None IO_OBJ_OUT g rd1 = Ret (co', err, g', rd')"
      using "1.prems"(1) Read_loop_Continue by metis
    have adv: "advance rd None rd1" using cont by (rule Read_body_Continue_advance)
    from "1.IH" [OF cont r refl refl]
    show ?thesis using skips_meets [OF pass(2,3)] adv later_mono by blast
  qed
qed

text \<open>
  C2 (amended). When \<^verbatim>\<open>parseLine\<close> classifies a line as
  \<^verbatim>\<open>IO_OBJ_END\<close>, \<^verbatim>\<open>Read\<close> returns the object under construction with a
  \<^verbatim>\<open>nil\<close> error. And every call of \<^verbatim>\<open>Read\<close> that returns gives one of
  three things. A \<^verbatim>\<open>nil\<close> object with a \<^verbatim>\<open>nil\<close> error: the call has
  passed over lines before any block and reached a line classified
  \<^verbatim>\<open>IO_OBJ_END\<close>, with no line classified \<^verbatim>\<open>IO_OBJ_BEGIN\<close> before it. An
  object with a \<^verbatim>\<open>nil\<close> error: the call has passed over lines before any
  block, met a header of two or more fields whose second field names a type, created
  the object of that type there, and the object returned is the one assembled from
  it by the lines up to the first line classified \<^verbatim>\<open>IO_OBJ_END\<close>. Or no
  object and an error, which is \<^verbatim>\<open>io.EOF\<close>, a read error of the stream, or a
  \<^verbatim>\<open>ParseError\<close> at the reader's line and column. An object never comes with
  an error.
\<close>

theorem Read_outcomes:
  "(parseLine e rd = (fs, IO_OBJ_END, err0, rd1) \<longrightarrow>
      Read_loop e setUUID fileID co prevState g rd = Ret (co, None, g, rd1)) \<and>
   (Read e setUUID fileID g rd = Ret (co', err, g', rd') \<longrightarrow>
      (err = None \<and> co' = None \<and> g' = g \<and>
         (\<exists>rdk fsk. skips e rd rdk \<and> parseLine e rdk = (fsk, IO_OBJ_END, None, rd')))
      \<or> (err = None \<and>
          (\<exists>rdh fsh rdb c0 c.
             skips e rd rdh \<and> parseLine e rdh = (fsh, IO_OBJ_BEGIN, None, rdb) \<and>
             2 \<le> length fsh \<and> CfgName_Type e (fsh ! 1) \<noteq> T_INVALID \<and>
             start_obj e setUUID fileID (CfgName_Type e (fsh ! 1)) g = (c0, g') \<and>
             assembles e c0 rdb c rd' \<and> co' = Some c))
      \<or> (co' = None \<and>
          (\<exists>x. err = Some x \<and>
             (x = EOF \<or> x \<in> fst ` set (later rd) \<or>
              x = ParseError (line rd') (column rd') ErrUnknown))))"
proof (intro conjI impI)
  assume pl: "parseLine e rd = (fs, IO_OBJ_END, err0, rd1)"
  then have "fs \<noteq> []" by (rule parseLine_END_fields)
  then have "Read_body e setUUID fileID co prevState g rd = Return (Ret (co, None, g, rd1))"
    using pl by (simp add: Read_body_def)
  then show "Read_loop e setUUID fileID co prevState g rd = Ret (co, None, g, rd1)"
    by (rule Read_loop_Return)
next
  assume "Read e setUUID fileID g rd = Ret (co', err, g', rd')"
  then have "Read_loop e setUUID fileID None IO_OBJ_OUT g rd = Ret (co', err, g', rd')"
    by (simp add: Read_def)
  from Read_loop_outside [OF this refl refl]
  show "(err = None \<and> co' = None \<and> g' = g \<and>
         (\<exists>rdk fsk. skips e rd rdk \<and> parseLine e rdk = (fsk, IO_OBJ_END, None, rd')))
      \<or> (err = None \<and>
          (\<exists>rdh fsh rdb c0 c.
             skips e rd rdh \<and> parseLine e rdh = (fsh, IO_OBJ_BEGIN, None, rdb) \<and>
             2 \<le> length fsh \<and> CfgName_Type e (fsh ! 1) \<noteq> T_INVALID \<and>
             start_obj e setUUID fileID (CfgName_Type e (fsh ! 1)) g = (c0, g') \<and>
             assembles e c0 rdb c rd' \<and> co' = Some c))
      \<or> (co' = None \<and>
          (\<exists>x. err = Some x \<and>
             (x = EOF \<or> x \<in> fst ` set (later rd) \<or>
              x = ParseError (line rd') (column rd') ErrUnknown)))"
    unfolding Read_meets_def Read_error_def by blast
qed

text \<open>
  C2 as stated fails: on the input \<^verbatim>\<open>"}\n"\<close> the call returns neither an
  object nor an error.
\<close>

theorem Read_nil_nil:
  "Read sample_env False [] sample_world (NewReader (runes ''}\<newline>'') []) =
     Ret (None, None, sample_world,
       \<lparr>Comment = HASH, line = 1, inputline = 0, column = 0, field = [],
        buf = [LF], lastRune = Some RBRACE, later = []\<rparr>)"
  by (simp add: run_defs sample_env_def sample_world_def)

theorem Read_outcomes_witness:
  "Read_loop sample_env False [] None IO_OBJ_OUT sample_world (NewReader (runes ''}\<newline>'') []) =
     Ret (None, None, sample_world,
       \<lparr>Comment = HASH, line = 1, inputline = 0, column = 0, field = [],
        buf = [LF], lastRune = Some RBRACE, later = []\<rparr>) \<and>
   Read sample_env False [] sample_world
     (NewReader (runes ''define service{\<newline>host_name h1\<newline>}\<newline>'') []) =
     Ret (Some sample_obj, None, sample_world,
       \<lparr>Comment = HASH, line = 4, inputline = 2, column = 0, field = [],
        buf = [LF], lastRune = Some RBRACE, later = []\<rparr>) \<and>
   (\<exists>rdh fsh rdb c0.
      skips sample_env (NewReader (runes ''define service{\<newline>host_name h1\<newline>}\<newline>'') []) rdh \<and>
      parseLine sample_env rdh = (fsh, IO_OBJ_BEGIN, None, rdb) \<and>
      CfgName_Type sample_env (fsh ! 1) \<noteq> T_INVALID \<and>
      start_obj sample_env False [] (CfgName_Type sample_env (fsh ! 1)) sample_world =
        (c0, sample_world) \<and>
      assembles sample_env c0 rdb sample_obj
        \<lparr>Comment = HASH, line = 4, inputline = 2, column = 0, field = [],
         buf = [LF], lastRune = Some RBRACE, later = []\<rparr>)"
proof -
  let ?rd1 = "\<lparr>Comment = HASH, line = 1, inputline = 0, column = 0, field = [],
        buf = [LF], lastRune = Some RBRACE, later = []\<rparr>"
  let ?in = "NewReader (runes ''define service{\<newline>host_name h1\<newline>}\<newline>'') []"
  let ?rd2 = "\<lparr>Comment = HASH, line = 4, inputline = 2, column = 0, field = [],
        buf = [LF], lastRune = Some RBRACE, later = []\<rparr>"
  have a: "parseLine sample_env (NewReader (runes ''}\<newline>'') []) = ([[]], IO_OBJ_END, None, ?rd1)"
    by (simp add: run_defs sample_env_def sample_world_def)
  have b: "Read sample_env False [] sample_world ?in = Ret (Some sample_obj, None, sample_world, ?rd2)"
    by (simp add: run_defs sample_env_def sample_world_def sample_obj_def)
  note t1 = Read_outcomes [where e = sample_env and rd = "NewReader (runes ''}\<newline>'') []"
      and fs = "[[]]" and ?err0.0 = None and ?rd1.0 = ?rd1 and setUUID = False and fileID = "[]"
      and co = None and prevState = IO_OBJ_OUT and g = sample_world]
  note t2 = Read_outcomes [where e = sample_env and rd = ?in and setUUID = False and fileID = "[]"
      and g = sample_world and co' = "Some sample_obj" and err = None and g' = sample_world
      and rd' = ?rd2]
  have c: "Read_loop sample_env False [] None IO_OBJ_OUT sample_world (NewReader (runes ''}\<newline>'') []) =
     Ret (None, None, sample_world, ?rd1)"
    using t1 a by blast
  have d: "\<exists>rdh fsh rdb c0.
      skips sample_env ?in rdh \<and>
      parseLine sample_env rdh = (fsh, IO_OBJ_BEGIN, None, rdb) \<and>
      CfgName_Type sample_env (fsh ! 1) \<noteq> T_INVALID \<and>
      start_obj sample_env False [] (CfgName_Type sample_env (fsh ! 1)) sample_world =
        (c0, sample_world) \<and>
      assembles sample_env c0 rdb sample_obj ?rd2"
    using t2 b by blast
  show ?thesis using b c d by blast
qed

section \<open>The producer of ReadChan\<close>









section \<open>Identities in ReadAllMap\<close>

lemma uuid_ok_mono: "uuid_ok n0 g c \<Longrightarrow> world_le g g' \<Longrightarrow> uuid_ok n0 g' c"
  by (auto simp: uuid_ok_def world_le_def)

lemma world_le_refl: "world_le g g"
  by (simp add: world_le_def)

lemma world_le_trans: "world_le g g' \<Longrightarrow> world_le g' g'' \<Longrightarrow> world_le g g''"
  by (auto simp: world_le_def)

lemma uuid_ok_Add: "uuid_ok n0 g c \<Longrightarrow> uuid_ok n0 g (CfgObj_Add k v c)"
  by (simp add: uuid_ok_def CfgObj_Add_def)

lemma Read_body_uuid:
  assumes "\<forall>c. co = Some c \<longrightarrow> uuid_ok n0 g c" and "n0 \<le> uuidgen g"
  shows "(Read_body e True fileID co prevState g rd = Continue co' prevState' g' rd' \<longrightarrow>
           (\<forall>c. co' = Some c \<longrightarrow> uuid_ok n0 g' c) \<and> world_le g g') \<and>
         (Read_body e True fileID co prevState g rd = Return (Ret (co', err, g', rd')) \<longrightarrow>
           (\<forall>c. co' = Some c \<longrightarrow> uuid_ok n0 g' c) \<and> world_le g g')"
proof -
  obtain fs st er rd1 where pl: "parseLine e rd = (fs, st, er, rd1)"
    by (cases "parseLine e rd") auto
  have new: "\<And>ct. uuid_ok n0 (g\<lparr>uuidgen := uuidgen g + 1,
        uuidorder := uuidorder g @ [U (uuidgen g)]\<rparr>) ((NewCfgObj e ct)\<lparr>UUID := U (uuidgen g)\<rparr>)"
    using assms(2) by (simp add: uuid_ok_def)
  have new': "\<And>ct. uuid_ok n0 (g\<lparr>uuidgen := uuidgen g + 1,
        uuidorder := uuidorder g @ [U (uuidgen g)]\<rparr>)
          ((NewCfgObj e ct)\<lparr>UUID := U (uuidgen g), FileID := fileID\<rparr>)"
    using assms(2) by (simp add: uuid_ok_def)
  have le: "world_le g (g\<lparr>uuidgen := uuidgen g + 1,
        uuidorder := uuidorder g @ [U (uuidgen g)]\<rparr>)"
    by (auto simp: world_le_def)
  show ?thesis
    using assms(1) pl new new' le world_le_refl uuid_ok_Add
    by (auto simp: Read_body_def Let_def NewCfgObjWithUUID_def
        split: if_splits IoState.splits prod.splits)
qed

lemma Read_loop_uuid:
  "Read_loop e True fileID co prevState g rd = Ret (co', err, g', rd') \<Longrightarrow>
   \<forall>c. co = Some c \<longrightarrow> uuid_ok n0 g c \<Longrightarrow> n0 \<le> uuidgen g \<Longrightarrow>
   (\<forall>c. co' = Some c \<longrightarrow> uuid_ok n0 g' c) \<and> world_le g g'"
proof (induction e "True" fileID co prevState g rd rule: Read_loop.induct)
  case (1 e fileID co prevState g rd)
  show ?case
  proof (cases "Read_body e True fileID co prevState g rd")
    case (Return res)
    then have "res = Ret (co', err, g', rd')"
      using "1.prems"(1) Read_loop_Return by simp
    then show ?thesis
      using Return Read_body_uuid [OF "1.prems"(2,3)] by blast
  next
    case (Continue co1 ps1 g1 rd1)
    then have r: "Read_loop e True fileID co1 ps1 g1 rd1 = Ret (co', err, g', rd')"
      using "1.prems"(1) Read_loop_Continue by simp
    have s: "(\<forall>c. co1 = Some c \<longrightarrow> uuid_ok n0 g1 c) \<and> world_le g g1"
      using Continue Read_body_uuid [OF "1.prems"(2,3)] by blast
    then have "n0 \<le> uuidgen g1"
      using "1.prems"(3) by (simp add: world_le_def)
    then have "(\<forall>c. co' = Some c \<longrightarrow> uuid_ok n0 g' c) \<and> world_le g1 g'"
      using "1.hyps" [OF Continue r] s by blast
    then show ?thesis using s world_le_trans by blast
  qed
qed

lemma ReadAllMap_loop_Return:
  "ReadAllMap_body e fileID m g rd = MapReturn res \<Longrightarrow> ReadAllMap_loop e fileID m g rd = res"
  by (subst ReadAllMap_loop.simps) simp

lemma ReadAllMap_loop_Next:
  "ReadAllMap_body e fileID m g rd = MapNext m' g' rd' \<Longrightarrow>
   ReadAllMap_loop e fileID m g rd = ReadAllMap_loop e fileID m' g' rd'"
  by (subst ReadAllMap_loop.simps) simp

lemma Read_uuid:
  "Read e True fileID g rd = Ret (obj, err, g', rd') \<Longrightarrow> n0 \<le> uuidgen g \<Longrightarrow>
   (\<forall>c. obj = Some c \<longrightarrow> uuid_ok n0 g' c) \<and> world_le g g'"
  using Read_loop_uuid [of e fileID None IO_OBJ_OUT g rd obj err g' rd' n0]
  by (simp add: Read_def)

lemma ReadAllMap_body_uuid:
  assumes "map_ok n0 g m" and "n0 \<le> uuidgen g"
  shows "(ReadAllMap_body e fileID m g rd = MapNext m' g' rd' \<longrightarrow>
            map_ok n0 g' m' \<and> n0 \<le> uuidgen g') \<and>
         (ReadAllMap_body e fileID m g rd = MapReturn (Ret (m', err, g', rd')) \<longrightarrow>
            map_ok n0 g' m' \<and> n0 \<le> uuidgen g')"
proof (cases "Read e True fileID g rd")
  case Panic
  then show ?thesis by (simp add: ReadAllMap_body_def)
next
  case (Ret x)
  obtain obj er g1 rd1 where x: "x = (obj, er, g1, rd1)" by (cases x) auto
  have u: "(\<forall>c. obj = Some c \<longrightarrow> uuid_ok n0 g1 c) \<and> world_le g g1"
    using Ret x Read_uuid assms(2) by blast
  have old: "map_ok n0 g1 m"
    unfolding map_ok_def
  proof (intro allI impI)
    fix u0 ob assume "m u0 = Some ob"
    then have "UUID ob = u0 \<and> uuid_ok n0 g ob"
      using assms(1) by (simp add: map_ok_def)
    then show "UUID ob = u0 \<and> uuid_ok n0 g1 ob"
      using u uuid_ok_mono by blast
  qed
  have n1: "n0 \<le> uuidgen g1"
    using u assms(2) by (simp add: world_le_def)
  have new: "\<And>ob. obj = Some ob \<Longrightarrow> map_ok n0 g1 (m(UUID ob \<mapsto> ob))"
    using old u by (auto simp: map_ok_def)
  show ?thesis
    using Ret x old new n1
    by (auto simp: ReadAllMap_body_def Let_def split: option.splits if_splits)
qed

lemma ReadAllMap_loop_uuid:
  "ReadAllMap_loop e fileID m g rd = Ret (m', err, g', rd') \<Longrightarrow>
   map_ok n0 g m \<Longrightarrow> n0 \<le> uuidgen g \<Longrightarrow> map_ok n0 g' m'"
proof (induction e fileID m g rd rule: ReadAllMap_loop.induct)
  case (1 e fileID m g rd)
  show ?case
  proof (cases "ReadAllMap_body e fileID m g rd")
    case (MapReturn res)
    then have "res = Ret (m', err, g', rd')"
      using "1.prems"(1) ReadAllMap_loop_Return by simp
    then show ?thesis
      using MapReturn ReadAllMap_body_uuid [OF "1.prems"(2,3)] by blast
  next
    case (MapNext m1 g1 rd1)
    then have r: "ReadAllMap_loop e fileID m1 g1 rd1 = Ret (m', err, g', rd')"
      using "1.prems"(1) ReadAllMap_loop_Next by simp
    have "map_ok n0 g1 m1 \<and> n0 \<le> uuidgen g1"
      using MapNext ReadAllMap_body_uuid [OF "1.prems"(2,3)] by blast
    then show ?thesis using "1.IH" [OF MapNext r] by blast
  qed
qed

text \<open>
  C10. \<^verbatim>\<open>ReadAllMap\<close> calls \<^verbatim>\<open>Read\<close> with \<^verbatim>\<open>setUUID = true\<close> in
  every round, so every object of the map it returns is stored under its own
  identity, the identity was generated during the call (when the object was
  created), and it is in the read-order ledger.
\<close>

theorem ReadAllMap_identities:
  "ReadAllMap e fileID g rd = Ret (m, err, g', rd') \<Longrightarrow> m u = Some ob \<Longrightarrow>
   UUID ob = u \<and> (\<exists>n. u = U n \<and> uuidgen g \<le> n \<and> n < uuidgen g') \<and>
   u \<in> set (uuidorder g')"
proof -
  assume r: "ReadAllMap e fileID g rd = Ret (m, err, g', rd')" and u: "m u = Some ob"
  have "map_ok (uuidgen g) g Map.empty" by (simp add: map_ok_def)
  then have "map_ok (uuidgen g) g' m"
    using r ReadAllMap_loop_uuid [of e fileID Map.empty g rd m err g' rd' "uuidgen g"]
    by (simp add: ReadAllMap_def)
  then have "UUID ob = u \<and> uuid_ok (uuidgen g) g' ob"
    using u by (simp add: map_ok_def)
  then show ?thesis by (auto simp: uuid_ok_def)
qed

theorem ReadAllMap_identities_witness:
  "ReadAllMap sample_env [] sample_world (NewReader (runes ''define host{\<newline>}'') []) =
     Ret ([U 0 \<mapsto> \<lparr>Type = T_KIND 5, UUID = U 0, Props = Map.empty, FileID = [],
                       Indent = 4, Align = 32\<rparr>],
          None, \<lparr>uuidorder = [U 0], uuidgen = 1\<rparr>,
          \<lparr>Comment = HASH, line = 4, inputline = 1, column = - 1, field = [],
             buf = [], lastRune = None, later = []\<rparr>) \<and>
   U 0 \<in> set (uuidorder \<lparr>uuidorder = [U 0], uuidgen = 1\<rparr>) \<and>
   uuidgen sample_world \<le> 0 \<and> 0 < uuidgen \<lparr>uuidorder = [U 0], uuidgen = 1\<rparr>"
proof -
  let ?ob = "\<lparr>Type = T_KIND 5, UUID = U 0, Props = Map.empty, FileID = [],
                       Indent = 4, Align = 32\<rparr>"
  let ?g = "\<lparr>uuidorder = [U 0], uuidgen = 1\<rparr>"
  let ?rd = "\<lparr>Comment = HASH, line = 4, inputline = 1, column = - 1, field = [],
             buf = [], lastRune = None, later = []\<rparr>"
  have a: "ReadAllMap sample_env [] sample_world (NewReader (runes ''define host{\<newline>}'') []) =
     Ret ([U 0 \<mapsto> ?ob], None, ?g, ?rd)"
    by (simp add: run_defs sample_env_def sample_world_def ReadAllMap_def
        ReadAllMap_body_def ReadAllMap_loop.simps)
  have b: "[U 0 \<mapsto> ?ob] (U 0) = Some ?ob" by simp
  show ?thesis
    using a ReadAllMap_identities [OF a b] by (simp add: sample_world_def)
qed

section \<open>Fields\<close>

lemma blankD:
  "blank c \<Longrightarrow> IsSpace c \<and> c \<noteq> LF \<and> c \<noteq> CR \<and> c \<noteq> LBRACE \<and> c \<noteq> RBRACE \<and> c \<noteq> HASH"
  by (auto simp: blank_def IsSpace_def)

lemma not_IsSpaceD:
  "\<not> IsSpace c \<Longrightarrow> c \<noteq> LF \<and> c \<noteq> CR \<and> c \<noteq> TAB \<and> c \<noteq> SPACE"
  by (auto simp: IsSpace_def)

lemma IsSpace_not_brace: "IsSpace c \<Longrightarrow> c \<noteq> LBRACE \<and> c \<noteq> RBRACE \<and> c \<noteq> HASH"
  by (auto simp: IsSpace_def)

lemma eolp_Nil [simp]: "eolp [] s"
  by (simp add: eolp_def)

lemma readRune_sep:
  "buf rd = k @ c # cs \<Longrightarrow> c \<noteq> CR \<Longrightarrow> eolp k c \<Longrightarrow>
   readRune rd = (c, None, rd\<lparr>buf := cs, lastRune := Some c, column := column rd + 1,
     inputline := inputline rd + (if c = LF \<and> k = [] then 1 else 0)\<rparr>)"
  by (auto simp: readRune_def ReadRune_def eolp_def)

lemma skipSpace_blanks:
  "\<forall>x\<in>set ws. blank x \<Longrightarrow> buf rd = ws @ k @ x # post \<Longrightarrow> x = LF \<or> \<not> IsSpace x \<Longrightarrow>
   eolp k x \<Longrightarrow>
   skipSpace rd = (x, None, rd\<lparr>buf := post, lastRune := Some x,
     column := column rd + int (length ws) + 1,
     inputline := inputline rd + (if x = LF \<and> k = [] then 1 else 0)\<rparr>)"
proof (induction ws arbitrary: rd)
  case Nil
  then have "x \<noteq> CR" using not_IsSpaceD by auto
  then have "readRune rd = (x, None, rd\<lparr>buf := post, lastRune := Some x, column := column rd + 1,
     inputline := inputline rd + (if x = LF \<and> k = [] then 1 else 0)\<rparr>)"
    using Nil readRune_sep [of rd k x post] by simp
  then show ?case using Nil by (subst skipSpace.simps) auto
next
  case (Cons b ws)
  then have b: "blank b" by simp
  let ?rd = "rd\<lparr>buf := ws @ k @ x # post, lastRune := Some b, column := column rd + 1\<rparr>"
  have "readRune rd = (b, None, ?rd)"
    using Cons.prems(2) b readRune_sep [of rd "[]" b "ws @ k @ x # post"] blankD by auto
  then have "skipSpace rd = skipSpace ?rd"
    using b blankD by (subst skipSpace.simps) simp
  also have "\<dots> = (x, None, ?rd\<lparr>buf := post, lastRune := Some x,
     column := column ?rd + int (length ws) + 1,
     inputline := inputline ?rd + (if x = LF \<and> k = [] then 1 else 0)\<rparr>)"
    using Cons.IH [of ?rd] Cons.prems by simp
  finally show ?case by simp
qed

lemma accumulate_word:
  "rest_ok al (column rd + 1) w \<Longrightarrow> \<not> IsSpace r1 \<Longrightarrow> buf rd = w @ k @ s # post \<Longrightarrow>
   stops al (column rd + int (length w) + 1) s \<Longrightarrow> eolp k s \<Longrightarrow>
   accumulate al r1 rd = (s, None, rd\<lparr>field := field rd @ r1 # w, buf := post,
     lastRune := Some s, column := column rd + int (length w) + 1,
     inputline := inputline rd + (if s = LF \<and> k = [] then 1 else 0)\<rparr>)"
proof (induction w arbitrary: rd r1)
  case Nil
  let ?rd = "rd\<lparr>field := field rd @ [r1]\<rparr>"
  have s: "s \<noteq> CR" using Nil.prems(4) by (auto simp: stops_def)
  have "readRune ?rd = (s, None, ?rd\<lparr>buf := post, lastRune := Some s, column := column rd + 1,
     inputline := inputline rd + (if s = LF \<and> k = [] then 1 else 0)\<rparr>)"
    using Nil.prems(3,5) s readRune_sep [of ?rd k s post] by simp
  then show ?case
    using Nil.prems(2,4) IsSpace_not_brace [of s]
    by (subst accumulate.simps) (auto simp: stops_def)
next
  case (Cons x w)
  let ?rd = "rd\<lparr>field := field rd @ [r1]\<rparr>"
  let ?rd1 = "?rd\<lparr>buf := w @ k @ s # post, lastRune := Some x, column := column rd + 1\<rparr>"
  have x: "\<not> IsSpace x" "x = LBRACE \<longrightarrow> al < column rd + 1" "rest_ok al (column rd + 1 + 1) w"
    using Cons.prems(1) by auto
  have "readRune ?rd = (x, None, ?rd1)"
    using Cons.prems(3) x(1) not_IsSpaceD [of x] readRune_sep [of ?rd "[]" x "w @ k @ s # post"]
    by auto
  then have "accumulate al r1 rd = accumulate al x ?rd1"
    using Cons.prems(2) x by (subst accumulate.simps) auto
  also have "\<dots> = (s, None, ?rd1\<lparr>field := field ?rd1 @ x # w, buf := post,
     lastRune := Some s, column := column ?rd1 + int (length w) + 1,
     inputline := inputline ?rd1 + (if s = LF \<and> k = [] then 1 else 0)\<rparr>)"
    using Cons.IH [of ?rd1 x] x Cons.prems(4,5) by (simp add: add.commute add.left_commute)
  finally show ?case by simp
qed

lemma parseFields_token:
  assumes ws: "\<forall>x\<in>set ws. blank x"
    and w: "field_ok al (column rd + int (length ws) + 1) w"
    and b: "buf rd = ws @ w @ k @ s # post"
    and s: "stops al (column rd + int (length ws) + int (length w) + 1) s"
    and k: "eolp k s"
    and al: "DEF_ALIGN e = al"
  shows "parseFields e rd = (True, s, None, rd\<lparr>field := w, buf := post, lastRune := Some s,
     column := column rd + int (length ws) + int (length w) + 1,
     inputline := inputline rd + (if s = LF \<and> k = [] then 1 else 0)\<rparr>)"
proof -
  obtain x xs where wx: "w = x # xs" using w by (cases w) (auto simp: field_ok_def)
  have x: "\<not> IsSpace x" "x \<noteq> LBRACE" "x \<noteq> RBRACE"
    "rest_ok al (column rd + int (length ws) + 1 + 1) xs"
    using w wx by (auto simp: field_ok_def)
  let ?rd0 = "rd\<lparr>field := []\<rparr>"
  let ?rd1 = "?rd0\<lparr>buf := xs @ k @ s # post, lastRune := Some x,
     column := column rd + int (length ws) + 1\<rparr>"
  have "skipSpace ?rd0 = (x, None, ?rd0\<lparr>buf := xs @ k @ s # post, lastRune := Some x,
     column := column ?rd0 + int (length ws) + 1,
     inputline := inputline ?rd0 + (if x = LF \<and> ([] :: gostring) = [] then 1 else 0)\<rparr>)"
    using skipSpace_blanks [of ws ?rd0 "[]" x "xs @ k @ s # post"] ws b wx x(1) by simp
  then have ss: "skipSpace ?rd0 = (x, None, ?rd1)"
    using not_IsSpaceD [OF x(1)] by simp
  have "accumulate al x ?rd1 = (s, None, ?rd1\<lparr>field := field ?rd1 @ x # xs, buf := post,
     lastRune := Some s, column := column ?rd1 + int (length xs) + 1,
     inputline := inputline ?rd1 + (if s = LF \<and> k = [] then 1 else 0)\<rparr>)"
    using accumulate_word [of al ?rd1 xs x k s post] x s k wx
    by (simp add: add.commute add.left_commute)
  then have ac: "accumulate al x ?rd1 = (s, None, rd\<lparr>field := w, buf := post, lastRune := Some s,
     column := column rd + int (length ws) + int (length w) + 1,
     inputline := inputline rd + (if s = LF \<and> k = [] then 1 else 0)\<rparr>)"
    using wx by (simp add: add.commute add.left_commute)
  show ?thesis
    using ss ac al x not_IsSpaceD [OF x(1)] by (simp add: parseFields_def)
qed

lemma parseFields_delim:
  assumes ws: "\<forall>x\<in>set ws. blank x"
    and b: "buf rd = ws @ k @ T # post"
    and T: "T = LF \<or> T = LBRACE \<or> T = RBRACE"
    and k: "eolp k T"
  shows "parseFields e rd = (T = RBRACE, T, None, rd\<lparr>field := [], buf := post,
     lastRune := Some T, column := column rd + int (length ws) + 1,
     inputline := inputline rd + (if T = LF \<and> k = [] then 1 else 0)\<rparr>)"
proof -
  let ?rd0 = "rd\<lparr>field := []\<rparr>"
  have T': "T = LF \<or> \<not> IsSpace T" using T by (auto simp: IsSpace_def)
  have "skipSpace ?rd0 = (T, None, ?rd0\<lparr>buf := post, lastRune := Some T,
     column := column ?rd0 + int (length ws) + 1,
     inputline := inputline ?rd0 + (if T = LF \<and> k = [] then 1 else 0)\<rparr>)"
    using skipSpace_blanks [of ws ?rd0 k T post] ws b T' k by simp
  then show ?thesis
    using T by (auto simp: parseFields_def)
qed

lemma parseLine_loop_delim:
  assumes "parseFields e rd = (h, T, None, rd')" and "T = LF \<or> T = LBRACE \<or> T = RBRACE"
  shows "parseLine_loop e fs rd = (if h then fs @ [field rd'] else fs, line_state T, None, rd')"
  using assms by (subst parseLine_loop.simps) (auto simp: line_state_def Let_def)

lemma parseLine_loop_next:
  assumes "parseFields e rd = (h, b, None, rd')" and "blank b"
  shows "parseLine_loop e fs rd = parseLine_loop e (if h then fs @ [field rd'] else fs) rd'"
  using assms blankD [of b] by (subst parseLine_loop.simps) (auto simp: Let_def)

lemma parseLine_loop_tokens:
  assumes "\<forall>x\<in>set lead. blank x"
    and "toks_ok al (column rd + int (length lead) + 1) ts"
    and "buf rd = lead @ toks_text ts @ k @ T # post"
    and "T = LF \<or> (T = LBRACE \<and> (ts \<noteq> [] \<and> snd (last ts) = [] \<longrightarrow>
           column rd + int (length lead) + int (length (toks_text ts)) + 1 \<le> al))"
    and "eolp k T"
    and "DEF_ALIGN e = al"
  shows "\<exists>rd'. parseLine_loop e fs rd = (fs @ map fst ts, line_state T, None, rd') \<and>
           buf rd' = post \<and> Comment rd' = Comment rd \<and> line rd' = line rd"
  using assms
proof (induction ts arbitrary: lead fs rd)
  case Nil
  have T: "T = LF \<or> T = LBRACE \<or> T = RBRACE" using Nil.prems(4) by auto
  let ?rd' = "rd\<lparr>field := [], buf := post,
     lastRune := Some T, column := column rd + int (length lead) + 1,
     inputline := inputline rd + (if T = LF \<and> k = [] then 1 else 0)\<rparr>"
  have pf: "parseFields e rd = (T = RBRACE, T, None, ?rd')"
    using parseFields_delim [OF Nil.prems(1) _ T Nil.prems(5), of rd post e] Nil.prems(3) by simp
  have "T \<noteq> RBRACE" using Nil.prems(4) by auto
  then have "parseLine_loop e fs rd = (fs, line_state T, None, ?rd')"
    using parseLine_loop_delim [OF pf T, of fs] by simp
  then show ?case by simp
next
  case (Cons t ts)
  obtain w ws where t: "t = (w, ws)" by (cases t) auto
  have ok: "field_ok al (column rd + int (length lead) + 1) w" "\<forall>x\<in>set ws. blank x"
    "ts \<noteq> [] \<longrightarrow> ws \<noteq> []"
    "toks_ok al (column rd + int (length lead) + 1 + int (length w) + int (length ws)) ts"
    using Cons.prems(2) t by auto
  show ?case
  proof (cases ws)
    case Nil
    then have ts: "ts = []" using ok(3) by auto
    have T: "T = LF \<or> T = LBRACE \<or> T = RBRACE" using Cons.prems(4) by auto
    have st: "stops al (column rd + int (length lead) + int (length w) + 1) T"
      using Cons.prems(4) t Nil ts by (auto simp: stops_def IsSpace_def)
    let ?rd' = "rd\<lparr>field := w, buf := post, lastRune := Some T,
     column := column rd + int (length lead) + int (length w) + 1,
     inputline := inputline rd + (if T = LF \<and> k = [] then 1 else 0)\<rparr>"
    have pf: "parseFields e rd = (True, T, None, ?rd')"
      using parseFields_token [OF Cons.prems(1) ok(1) _ st Cons.prems(5,6), of post]
        Cons.prems(3) t Nil ts by simp
    have "parseLine_loop e fs rd = (fs @ [w], line_state T, None, ?rd')"
      using parseLine_loop_delim [OF pf T, of fs] by simp
    then show ?thesis using t ts by simp
  next
    case (Cons b ws')
    have b: "blank b" and ws': "\<forall>x\<in>set ws'. blank x" using ok(2) Cons by auto
    have st: "stops al (column rd + int (length lead) + int (length w) + 1) b"
      using b blankD [of b] by (simp add: stops_def)
    let ?rd1 = "rd\<lparr>field := w, buf := ws' @ toks_text ts @ k @ T # post, lastRune := Some b,
     column := column rd + int (length lead) + int (length w) + 1,
     inputline := inputline rd + (if b = LF \<and> ([] :: gostring) = [] then 1 else 0)\<rparr>"
    have pf: "parseFields e rd = (True, b, None, ?rd1)"
      using parseFields_token [OF Cons.prems(1) ok(1) _ st eolp_Nil Cons.prems(6),
          of "ws' @ toks_text ts @ k @ T # post"] Cons.prems(3) t Cons by simp
    have nx: "parseLine_loop e fs rd = parseLine_loop e (fs @ [w]) ?rd1"
      using parseLine_loop_next [OF pf b, of fs] by simp
    have ok1: "toks_ok al (column ?rd1 + int (length ws') + 1) ts"
      using ok(4) Cons by (simp add: add.commute add.left_commute)
    have T1: "T = LF \<or> (T = LBRACE \<and> (ts \<noteq> [] \<and> snd (last ts) = [] \<longrightarrow>
           column ?rd1 + int (length ws') + int (length (toks_text ts)) + 1 \<le> al))"
      using Cons.prems(4) t Cons by (auto simp: add.commute add.left_commute)
    obtain rd' where "parseLine_loop e (fs @ [w]) ?rd1 =
        ((fs @ [w]) @ map fst ts, line_state T, None, rd') \<and>
        buf rd' = post \<and> Comment rd' = Comment ?rd1 \<and> line rd' = line ?rd1"
      using Cons.IH [OF ws' ok1 _ T1 Cons.prems(5,6), of "fs @ [w]"] by auto
    then show ?thesis using nx t by auto
  qed
qed

section \<open>Lines\<close>

lemma skip_line:
  "LF \<notin> set cmt \<Longrightarrow> buf rd = cmt @ LF # post \<Longrightarrow>
   \<exists>rd'. skip LF rd = (None, rd') \<and> buf rd' = post \<and> Comment rd' = Comment rd \<and>
         line rd' = line rd"
proof (induction cmt arbitrary: rd)
  case Nil
  then have "readRune rd = (LF, None, rd\<lparr>buf := post, lastRune := Some LF,
     inputline := inputline rd + 1, column := column rd + 1\<rparr>)"
    by (simp add: readRune_def ReadRune_def)
  then show ?case by (subst skip.simps) simp
next
  case (Cons x cmt)
  have x: "x \<noteq> LF" and t: "LF \<notin> set cmt" using Cons.prems(1) by auto
  show ?case
  proof (cases "x = CR \<and> cmt = []")
    case True
    then have "readRune rd = (LF, None, rd\<lparr>buf := post, lastRune := Some LF,
       column := column rd + 1\<rparr>)"
      using Cons.prems(2) by (simp add: readRune_def ReadRune_def)
    then show ?thesis by (subst skip.simps) simp
  next
    case False
    define l where "l = (if x = CR then None else Some x)"
    have rr: "readRune rd = (x, None, rd\<lparr>buf := cmt @ LF # post, lastRune := l,
       column := column rd + 1\<rparr>)"
    proof (cases "x = CR")
      case True
      then obtain y ys where "cmt = y # ys" using False by (cases cmt) auto
      then show ?thesis
        using True t Cons.prems(2) by (auto simp: l_def readRune_def ReadRune_def UnreadRune_def)
    next
      case False
      then show ?thesis
        using x Cons.prems(2) by (simp add: l_def readRune_def ReadRune_def)
    qed
    let ?rd1 = "rd\<lparr>buf := cmt @ LF # post, lastRune := l, column := column rd + 1\<rparr>"
    have "skip LF rd = skip LF ?rd1"
      using rr x by (subst skip.simps) simp
    moreover obtain rd' where "skip LF ?rd1 = (None, rd') \<and> buf rd' = post \<and>
        Comment rd' = Comment ?rd1 \<and> line rd' = line ?rd1"
      using Cons.IH [OF t, of ?rd1] by auto
    ultimately show ?thesis by auto
  qed
qed

lemma parseLine_comment:
  assumes "Comment rd = c" and "c \<noteq> 0" and "LF \<notin> set cmt"
    and "buf rd = c # cmt @ LF # post"
  shows "\<exists>rd'. parseLine e rd = ([], IO_OBJ_OUT, None, rd') \<and> buf rd' = post \<and>
           Comment rd' = Comment rd \<and> line rd' = line rd + 1"
proof -
  let ?rd1 = "rd\<lparr>line := line rd + 1, column := - 1, buf := cmt @ LF # post,
     lastRune := Some c\<rparr>"
  obtain rd' where s: "skip LF ?rd1 = (None, rd') \<and> buf rd' = post \<and>
      Comment rd' = Comment ?rd1 \<and> line rd' = line ?rd1"
    using skip_line [OF assms(3), of ?rd1 post] by auto
  have "parseLine e rd = ([], IO_OBJ_OUT, None, rd')"
    using assms(1,2,4) s by (simp add: parseLine_def ReadRune_def)
  then show ?thesis using s by simp
qed

lemma parseLine_start:
  assumes "buf rd = c # cs" and "c \<noteq> Comment rd \<or> Comment rd = 0"
  shows "parseLine e rd =
     parseLine_loop e [] (rd\<lparr>line := line rd + 1, column := - 1, buf := c # cs,
       lastRune := None\<rparr>)"
  using assms by (auto simp: parseLine_def ReadRune_def UnreadRune_def)

lemma parseLine_tokens:
  assumes "\<forall>x\<in>set lead. blank x"
    and "toks_ok al (int (length lead)) ts"
    and "buf rd = lead @ toks_text ts @ k @ T # post"
    and "T = LF \<or> (T = LBRACE \<and> (ts \<noteq> [] \<and> snd (last ts) = [] \<longrightarrow>
           int (length lead) + int (length (toks_text ts)) \<le> al))"
    and "eolp k T"
    and "DEF_ALIGN e = al"
    and "Comment rd = HASH"
    and "lead = [] \<longrightarrow> ts \<noteq> [] \<longrightarrow> hd (fst (hd ts)) \<noteq> HASH"
  shows "\<exists>rd'. parseLine e rd = (map fst ts, line_state T, None, rd') \<and>
           buf rd' = post \<and> Comment rd' = Comment rd \<and> line rd' = line rd + 1"
proof -
  have ne: "lead @ toks_text ts @ k @ T # post \<noteq> []" by simp
  then obtain c cs where cs: "lead @ toks_text ts @ k @ T # post = c # cs"
    by (cases "lead @ toks_text ts @ k @ T # post") auto
  have c: "c \<noteq> HASH"
  proof (cases lead)
    case (Cons b bs)
    then show ?thesis using cs assms(1) blankD [of b] by auto
  next
    case Nil
    show ?thesis
    proof (cases ts)
      case Nil
      then show ?thesis using \<open>lead = []\<close> cs assms(4,5) by (auto simp: eolp_def)
    next
      case (Cons t ts')
      obtain w ws where t: "t = (w, ws)" by (cases t) auto
      then have "w \<noteq> []" using assms(2) Cons by (auto simp: field_ok_def)
      then show ?thesis using \<open>lead = []\<close> cs Cons t assms(8) by (cases w) auto
    qed
  qed
  let ?rd0 = "rd\<lparr>line := line rd + 1, column := - 1, buf := c # cs, lastRune := None\<rparr>"
  have st: "parseLine e rd = parseLine_loop e [] ?rd0"
    using parseLine_start [of rd c cs e] assms(3,7) cs c by simp
  have b0: "buf ?rd0 = lead @ toks_text ts @ k @ T # post" using cs by simp
  have ok0: "toks_ok al (column ?rd0 + int (length lead) + 1) ts" using assms(2) by simp
  have T0: "T = LF \<or> (T = LBRACE \<and> (ts \<noteq> [] \<and> snd (last ts) = [] \<longrightarrow>
           column ?rd0 + int (length lead) + int (length (toks_text ts)) + 1 \<le> al))"
    using assms(4) by simp
  obtain rd' where "parseLine_loop e [] ?rd0 = ([] @ map fst ts, line_state T, None, rd') \<and>
           buf rd' = post \<and> Comment rd' = Comment ?rd0 \<and> line rd' = line ?rd0"
    using parseLine_loop_tokens [OF assms(1) ok0 b0 T0 assms(5,6), of "[]"] by blast
  then show ?thesis using st by auto
qed

lemma parseLine_close:
  assumes "\<forall>x\<in>set lead. blank x" and "buf rd = lead @ RBRACE # post" and "Comment rd = HASH"
  shows "\<exists>rd'. parseLine e rd = ([[]], IO_OBJ_END, None, rd') \<and>
           buf rd' = post \<and> Comment rd' = Comment rd \<and> line rd' = line rd + 1"
proof -
  obtain c cs where cs: "lead @ RBRACE # post = c # cs"
    by (cases "lead @ RBRACE # post") auto
  let ?rd0 = "rd\<lparr>line := line rd + 1, column := - 1, buf := c # cs, lastRune := None\<rparr>"
  have c: "c \<noteq> HASH"
    using cs assms(1) by (cases lead) (auto dest: blankD)
  have st: "parseLine e rd = parseLine_loop e [] ?rd0"
    using parseLine_start [of rd c cs e] assms(2,3) cs c by simp
  let ?rd' = "?rd0\<lparr>field := [], buf := post,
     lastRune := Some RBRACE, column := column ?rd0 + int (length lead) + 1,
     inputline := inputline ?rd0 + (if RBRACE = LF then 1 else 0)\<rparr>"
  have pf: "parseFields e ?rd0 = (RBRACE = RBRACE, RBRACE, None, ?rd')"
    using parseFields_delim [OF assms(1), of ?rd0 "[]" RBRACE post e] cs by simp
  have "parseLine_loop e [] ?rd0 = ([[]], IO_OBJ_END, None, ?rd')"
    using parseLine_loop_delim [of e ?rd0 True RBRACE ?rd' "[]"] pf
    by (simp add: line_state_def)
  then show ?thesis using st by simp
qed

lemma parseLine_srcline:
  assumes "line_ok al l" and "DEF_ALIGN e = al" and "Comment rd = HASH"
    and "buf rd = line_text l @ post"
  shows "\<exists>rd' st. parseLine e rd = (line_fields l, st, None, rd') \<and>
           (line_fields l \<noteq> [] \<longrightarrow> st = IO_OBJ_IN) \<and>
           buf rd' = post \<and> Comment rd' = HASH \<and> line rd' = line rd + 1"
proof (cases l)
  case (CommentLine cmt)
  then show ?thesis
    using parseLine_comment [of rd HASH cmt post e] assms by auto
next
  case (FieldLine lead ts crlf)
  define k where "k = (if crlf then [CR] else [])"
  have b: "buf rd = lead @ toks_text ts @ k @ LF # post"
    using assms(4) FieldLine by (simp add: k_def)
  have k: "eolp k LF" by (simp add: k_def eolp_def)
  have T: "LF = LF \<or> (LF = LBRACE \<and> (ts \<noteq> [] \<and> snd (last ts) = [] \<longrightarrow>
           int (length lead) + int (length (toks_text ts)) \<le> al))"
    by simp
  have "\<exists>rd'. parseLine e rd = (map fst ts, line_state LF, None, rd') \<and>
           buf rd' = post \<and> Comment rd' = Comment rd \<and> line rd' = line rd + 1"
    using parseLine_tokens [OF _ _ b T k assms(2,3)] assms(1) FieldLine by auto
  then show ?thesis using FieldLine assms(3) by (auto simp: line_state_def)
qed

lemma Read_body_srcline:
  assumes "line_ok al l" and "DEF_ALIGN e = al" and "Comment rd = HASH"
    and "buf rd = line_text l @ post"
  shows "\<exists>rd'. Read_body e setUUID fileID co prevState g rd =
             Continue (map_option (add_line l) co) prevState g rd' \<and>
           buf rd' = post \<and> Comment rd' = HASH \<and> line rd' = line rd + 1 \<and>
           later rd' = later rd"
proof -
  obtain rd' st where pl: "parseLine e rd = (line_fields l, st, None, rd')"
    "line_fields l \<noteq> [] \<longrightarrow> st = IO_OBJ_IN"
    "buf rd' = post" "Comment rd' = HASH" "line rd' = line rd + 1"
    using parseLine_srcline [OF assms] by blast
  have "Read_body e setUUID fileID co prevState g rd =
      Continue (map_option (add_line l) co) prevState g rd'"
  proof (cases "line_fields l = []")
    case True
    then show ?thesis
      using pl(1) by (cases co) (simp_all add: Read_body_def add_line_def)
  next
    case False
    then have "st = IO_OBJ_IN" using pl(2) by simp
    then show ?thesis
      using pl(1) False
      by (cases co) (auto simp: Read_body_def add_line_def Let_def)
  qed
  moreover have "later rd' = later rd"
    using parseLine_advance [OF pl(1)] by (simp add: advance_def)
  ultimately show ?thesis using pl by blast
qed

lemma Read_loop_lines:
  assumes "\<forall>l\<in>set ls. line_ok al l" and "DEF_ALIGN e = al" and "Comment rd = HASH"
    and "buf rd = lines_text ls @ post"
  shows "\<exists>rd'. Read_loop e setUUID fileID co prevState g rd =
             Read_loop e setUUID fileID (map_option (add_lines ls) co) prevState g rd' \<and>
           buf rd' = post \<and> Comment rd' = HASH \<and> line rd' = line rd + int (length ls) \<and>
           later rd' = later rd"
  using assms
proof (induction ls arbitrary: co rd)
  case Nil
  then show ?case
    by (cases co) (auto simp: lines_text_def add_lines_def)
next
  case (Cons l ls)
  have b: "buf rd = line_text l @ (lines_text ls @ post)"
    using Cons.prems(4) by (simp add: lines_text_def)
  obtain rd1 where s: "Read_body e setUUID fileID co prevState g rd =
             Continue (map_option (add_line l) co) prevState g rd1"
    "buf rd1 = lines_text ls @ post" "Comment rd1 = HASH" "line rd1 = line rd + 1"
    "later rd1 = later rd"
    using Read_body_srcline [OF _ Cons.prems(2,3) b, of setUUID fileID co prevState g]
      Cons.prems(1) by auto
  have ls: "\<forall>l\<in>set ls. line_ok al l" using Cons.prems(1) by simp
  obtain rd' where r: "Read_loop e setUUID fileID (map_option (add_line l) co) prevState g rd1 =
             Read_loop e setUUID fileID
               (map_option (add_lines ls) (map_option (add_line l) co)) prevState g rd'"
    "buf rd' = post" "Comment rd' = HASH" "line rd' = line rd1 + int (length ls)"
    "later rd' = later rd1"
    using Cons.IH [OF ls Cons.prems(2) s(3,2), of "map_option (add_line l) co"] by blast
  have "map_option (add_lines ls) (map_option (add_line l) co) =
      map_option (add_lines (l # ls)) co"
    by (cases co) (simp_all add: add_lines_def)
  then have "Read_loop e setUUID fileID co prevState g rd =
      Read_loop e setUUID fileID (map_option (add_lines (l # ls)) co) prevState g rd'"
    using Read_loop_Continue [OF s(1)] r(1) by simp
  moreover have "later rd' = later rd" using r(5) s(5) by simp
  ultimately show ?case using r(2,3,4) s(4) by (intro exI [of _ rd']) simp
qed

section \<open>Blocks\<close>

lemma start_obj_Type [simp]: "Type (fst (start_obj e setUUID fileID ct g)) = ct"
  by (simp add: start_obj_def NewCfgObjWithUUID_def NewCfgObj_def)

lemma start_obj_Props [simp]: "Props (fst (start_obj e setUUID fileID ct g)) = Map.empty"
  by (simp add: start_obj_def NewCfgObjWithUUID_def NewCfgObj_def)

lemma start_obj_Indent [simp]: "Indent (fst (start_obj e setUUID fileID ct g)) = DEF_INDENT e"
  by (simp add: start_obj_def NewCfgObjWithUUID_def NewCfgObj_def)

lemma start_obj_Align [simp]: "Align (fst (start_obj e setUUID fileID ct g)) = NEW_ALIGN e"
  by (simp add: start_obj_def NewCfgObjWithUUID_def NewCfgObj_def)

lemma Read_body_header:
  assumes "\<forall>x\<in>set lead. blank x"
    and "toks_ok al (int (length lead)) ts"
    and "buf rd = lead @ toks_text ts @ LBRACE # post"
    and "snd (last ts) = [] \<longrightarrow> int (length lead) + int (length (toks_text ts)) \<le> al"
    and "DEF_ALIGN e = al"
    and "Comment rd = HASH"
    and "lead = [] \<longrightarrow> hd (fst (hd ts)) \<noteq> HASH"
    and "2 \<le> length ts"
    and "CfgName_Type e (fst (ts ! 1)) = ct" and "ct \<noteq> T_INVALID"
  shows "\<exists>rd'. Read_body e setUUID fileID co IO_OBJ_OUT g rd =
             Continue (Some (fst (start_obj e setUUID fileID ct g))) IO_OBJ_BEGIN
               (snd (start_obj e setUUID fileID ct g)) rd' \<and>
           buf rd' = post \<and> Comment rd' = HASH \<and> line rd' = line rd + 1"
proof -
  have T: "LBRACE = LF \<or> (LBRACE = LBRACE \<and> (ts \<noteq> [] \<and> snd (last ts) = [] \<longrightarrow>
           int (length lead) + int (length (toks_text ts)) \<le> al))"
    using assms(4) by simp
  obtain rd' where pl: "parseLine e rd = (map fst ts, line_state LBRACE, None, rd')"
    "buf rd' = post" "Comment rd' = Comment rd" "line rd' = line rd + 1"
    using parseLine_tokens [OF assms(1,2) _ T eolp_Nil assms(5,6), of post] assms(3,7) by auto
  have st: "line_state LBRACE = IO_OBJ_BEGIN" by (simp add: line_state_def)
  have ne: "map fst ts \<noteq> []" using assms(8) by auto
  have i1: "map fst ts ! 1 = fst (ts ! 1)" using assms(8) by simp
  have "Read_body e setUUID fileID co IO_OBJ_OUT g rd =
             Continue (Some (fst (start_obj e setUUID fileID ct g))) IO_OBJ_BEGIN
               (snd (start_obj e setUUID fileID ct g)) rd'"
    using pl(1) st ne i1 assms(8,9,10)
    by (simp add: Read_body_def start_obj_def Let_def split: prod.splits)
  then show ?thesis using pl assms(6) by auto
qed

lemma Read_body_close:
  assumes "\<forall>x\<in>set lead. blank x" and "buf rd = lead @ RBRACE # post" and "Comment rd = HASH"
  shows "\<exists>rd'. Read_body e setUUID fileID co prevState g rd = Return (Ret (co, None, g, rd')) \<and>
           buf rd' = post \<and> Comment rd' = HASH \<and> line rd' = line rd + 1"
proof -
  obtain rd' where pl: "parseLine e rd = ([[]], IO_OBJ_END, None, rd')"
    "buf rd' = post" "Comment rd' = Comment rd" "line rd' = line rd + 1"
    using parseLine_close [OF assms] by blast
  have "Read_body e setUUID fileID co prevState g rd = Return (Ret (co, None, g, rd'))"
    using pl(1) by (simp add: Read_body_def)
  then show ?thesis using pl assms(3) by auto
qed

lemma Read_body_eof:
  assumes "buf rd = []" and "later rd = []"
  shows "Read_body e setUUID fileID co prevState g rd =
     Return (Ret (None, Some EOF, g,
       rd\<lparr>line := line rd + 1, column := - 1, lastRune := None\<rparr>))"
  using assms by (simp add: Read_body_def parseLine_def ReadRune_def)

lemma add_line_eq:
  "add_line l c = c\<lparr>Props := map_of (props_of [l]) ++ Props c\<rparr>"
proof (cases "is_prop l")
  case False
  then show ?thesis by (simp add: add_line_def props_of_def is_prop_def)
next
  case True
  have "[fst (prop_of l) \<mapsto> snd (prop_of l)] ++ Props c =
      (if fst (prop_of l) \<in> dom (Props c) then Props c
       else (Props c)(fst (prop_of l) \<mapsto> snd (prop_of l)))"
    by (rule ext) (auto simp: map_add_def split: option.splits)
  then show ?thesis
    using True by (simp add: add_line_def props_of_def is_prop_def CfgObj_Add_def prop_of_def)
qed

lemma add_lines_eq:
  "add_lines ls c = c\<lparr>Props := map_of (props_of ls) ++ Props c\<rparr>"
proof (induction ls arbitrary: c)
  case Nil
  then show ?case by (simp add: add_lines_def props_of_def)
next
  case (Cons l ls)
  have s: "add_lines (l # ls) c = add_lines ls (add_line l c)"
    by (simp add: add_lines_def)
  have "map_of (props_of ls) ++ (map_of (props_of [l]) ++ Props c) =
      map_of (props_of (l # ls)) ++ Props c"
    by (rule ext) (auto simp: map_add_def props_of_def split: option.splits)
  then show ?case
    unfolding s Cons.IH by (simp add: add_line_eq)
qed

lemma Read_block:
  assumes al: "DEF_ALIGN e = al"
    and pre: "\<forall>l\<in>set pre. line_ok al l"
    and hdr: "header_ok al lead ws1 ty ws2"
    and body: "\<forall>l\<in>set body. line_ok al l"
    and foot: "\<forall>x\<in>set foot. blank x"
    and ty: "CfgName_Type e ty = t" "t \<noteq> T_INVALID"
    and rd: "Comment rd = HASH"
        "buf rd = lines_text pre @ header_text lead ws1 ty ws2 @ lines_text body @ foot @
           RBRACE # rest"
  shows "\<exists>rd'. Read e setUUID fileID g rd =
           Ret (Some ((fst (start_obj e setUUID fileID t g))\<lparr>Props := map_of (props_of body)\<rparr>),
                None, snd (start_obj e setUUID fileID t g), rd') \<and>
         buf rd' = rest \<and> Comment rd' = HASH"
proof -
  let ?ts = "[(runes ''define'', ws1), (ty, ws2)]"
  let ?c = "fst (start_obj e setUUID fileID t g)"
  let ?g = "snd (start_obj e setUUID fileID t g)"
  obtain rd1 where r1: "Read_loop e setUUID fileID None IO_OBJ_OUT g rd =
      Read_loop e setUUID fileID (map_option (add_lines pre) None) IO_OBJ_OUT g rd1"
    "buf rd1 = header_text lead ws1 ty ws2 @ lines_text body @ foot @ RBRACE # rest"
    "Comment rd1 = HASH"
    using Read_loop_lines [OF pre al rd(1), of _ setUUID fileID None IO_OBJ_OUT g] rd(2)
    by blast
  have h: "\<forall>x\<in>set lead. blank x" "toks_ok al (int (length lead)) ?ts"
    "snd (last ?ts) = [] \<longrightarrow> int (length lead) + int (length (toks_text ?ts)) \<le> al"
    using hdr by (auto simp: header_ok_def)
  have b1: "buf rd1 = lead @ toks_text ?ts @ LBRACE # (lines_text body @ foot @ RBRACE # rest)"
    using r1(2) by (simp add: header_text_def)
  have hd: "lead = [] \<longrightarrow> hd (fst (hd ?ts)) \<noteq> HASH" by (simp add: runes_def)
  obtain rd2 where r2: "Read_body e setUUID fileID None IO_OBJ_OUT g rd1 =
      Continue (Some ?c) IO_OBJ_BEGIN ?g rd2"
    "buf rd2 = lines_text body @ foot @ RBRACE # rest" "Comment rd2 = HASH"
    using Read_body_header [OF h(1,2) b1 h(3) al r1(3) hd _ _ ty(2), of setUUID fileID None g] ty(1)
    by auto
  obtain rd3 where r3: "Read_loop e setUUID fileID (Some ?c) IO_OBJ_BEGIN ?g rd2 =
      Read_loop e setUUID fileID (map_option (add_lines body) (Some ?c)) IO_OBJ_BEGIN ?g rd3"
    "buf rd3 = foot @ RBRACE # rest" "Comment rd3 = HASH"
    using Read_loop_lines [OF body al r2(3), of _ setUUID fileID "Some ?c" IO_OBJ_BEGIN ?g] r2(2)
    by blast
  obtain rd4 where r4: "Read_body e setUUID fileID (Some (add_lines body ?c)) IO_OBJ_BEGIN ?g rd3 =
      Return (Ret (Some (add_lines body ?c), None, ?g, rd4))"
    "buf rd4 = rest" "Comment rd4 = HASH"
    using Read_body_close [OF foot r3(2,3)] by blast
  have "add_lines body ?c = ?c\<lparr>Props := map_of (props_of body)\<rparr>"
    by (simp add: add_lines_eq)
  then have "Read e setUUID fileID g rd =
      Ret (Some (?c\<lparr>Props := map_of (props_of body)\<rparr>), None, ?g, rd4)"
    using r1(1) Read_loop_Continue [OF r2(1)] r3(1) Read_loop_Return [OF r4(1)]
    by (simp add: Read_def)
  then show ?thesis using r4 by blast
qed

lemma Read_trailer:
  assumes al: "DEF_ALIGN e = al"
    and post: "\<forall>l\<in>set post. line_ok al l"
    and rd: "Comment rd = HASH" "buf rd = lines_text post" "later rd = []"
  shows "\<exists>rd'. Read e setUUID fileID g rd = Ret (None, Some EOF, g, rd')"
proof -
  obtain rd1 where r1: "Read_loop e setUUID fileID None IO_OBJ_OUT g rd =
      Read_loop e setUUID fileID (map_option (add_lines post) None) IO_OBJ_OUT g rd1"
    "buf rd1 = []" "later rd1 = []"
    using Read_loop_lines [OF post al rd(1), of "[]" setUUID fileID None IO_OBJ_OUT g] rd(2,3)
    by auto
  show ?thesis
    using r1(1) Read_loop_Return [OF Read_body_eof [OF r1(2,3)]] by (simp add: Read_def)
qed

text \<open>
  C1 as stated fails. In the block below the property line
  \<^verbatim>\<open>check_command a{b\<close> has a value that holds a brace at column 16, within the
  threshold of 32 columns: the scanner takes the brace as a block opener, the line is
  classified \<^verbatim>\<open>IO_OBJ_BEGIN\<close> and passed over, and the object that
  \<^verbatim>\<open>Read\<close> returns has no property.
\<close>

theorem Read_brace_in_value:
  "Read sample_env False [] sample_world
     (NewReader (runes ''define service{\<newline>check_command a{b\<newline>}\<newline>'') []) =
     Ret (Some \<lparr>Type = T_KIND 8, UUID = NoUUID, Props = Map.empty,
               FileID = [], Indent = 4, Align = 32\<rparr>,
          None, sample_world,
          \<lparr>Comment = HASH, line = 5, inputline = 2, column = 0, field = [],
           buf = [LF], lastRune = Some RBRACE, later = []\<rparr>)"
  by (simp add: run_defs sample_env_def sample_world_def)

text \<open>
  C1 (amended). An input that holds exactly one well-formed block, and nothing after
  it in the stream: any lines before the block, the header
  \<^verbatim>\<open>define <type>{\<close>, the lines of the body, the closing brace, and any
  lines after it, each line ended by LF or CR LF. A line is a comment line (the
  comment marker first) or leading blanks and fields. The fields are runs of runes
  that are not whitespace, separated by whitespace other than CR and LF; no field
  begins with a brace, and a \<^verbatim>\<open>{\<close> inside a field lies beyond the threshold
  column, where the scanner takes it as part of the value; the brace of the header
  follows whitespace or lies within the threshold. On such an input \<^verbatim>\<open>Read\<close>
  returns one object: its type is the declared type, and its property map has
  exactly the first fields of the lines with at least two fields as keys, each sent
  to the single-space join of the remaining fields of its line (the keys being
  distinct). The next call returns \<^verbatim>\<open>io.EOF\<close>.
\<close>

theorem Read_single_block:
  assumes "DEF_ALIGN e = al"
    and "\<forall>l\<in>set pre. line_ok al l"
    and "header_ok al lead ws1 ty ws2"
    and "\<forall>l\<in>set body. line_ok al l"
    and "\<forall>x\<in>set foot. blank x"
    and "\<forall>l\<in>set post. line_ok al l"
    and "CfgName_Type e ty = t" and "t \<noteq> T_INVALID"
    and "distinct (map fst (props_of body))"
  shows "\<exists>co g1 rd1 rd2.
           Read e setUUID fileID g (NewReader (block_text pre lead ws1 ty ws2 body foot post) []) =
             Ret (Some co, None, g1, rd1) \<and>
           Type co = t \<and>
           dom (Props co) = {hd (line_fields l) |l. l \<in> set body \<and> 2 \<le> length (line_fields l)} \<and>
           (\<forall>l\<in>set body. 2 \<le> length (line_fields l) \<longrightarrow>
              Props co (hd (line_fields l)) = Some (spaced (tl (line_fields l)))) \<and>
           Read e setUUID fileID g1 rd1 = Ret (None, Some EOF, g1, rd2)"
proof -
  let ?c = "fst (start_obj e setUUID fileID t g)"
  let ?g = "snd (start_obj e setUUID fileID t g)"
  let ?rd = "NewReader (block_text pre lead ws1 ty ws2 body foot post) []"
  have c: "Comment ?rd = HASH" by (simp add: NewReader_def)
  have b: "buf ?rd = lines_text pre @ header_text lead ws1 ty ws2 @ lines_text body @ foot @
           RBRACE # lines_text post"
    by (simp add: NewReader_def block_text_def)
  obtain rd1 where r1: "Read e setUUID fileID g ?rd =
           Ret (Some (?c\<lparr>Props := map_of (props_of body)\<rparr>), None, ?g, rd1)"
    "buf rd1 = lines_text post" "Comment rd1 = HASH"
    using Read_block [OF assms(1-5,7,8) c b] by blast
  have "set (later rd1) \<subseteq> set (later ?rd)" using Read_remaining [OF r1(1)] by simp
  then have l1: "later rd1 = []" by (simp add: NewReader_def)
  obtain rd2 where r2: "Read e setUUID fileID ?g rd1 = Ret (None, Some EOF, ?g, rd2)"
    using Read_trailer [OF assms(1,6) r1(3,2) l1] by blast
  have po: "\<And>l. 2 \<le> length (line_fields l) \<Longrightarrow>
      prop_of l = (hd (line_fields l), spaced (tl (line_fields l)))"
  proof -
    fix l assume "2 \<le> length (line_fields l)"
    then show "prop_of l = (hd (line_fields l), spaced (tl (line_fields l)))"
      by (cases "line_fields l") (auto simp: prop_of_def Join_spaced drop_Suc)
  qed
  have d: "dom (map_of (props_of body)) =
      {hd (line_fields l) |l. l \<in> set body \<and> 2 \<le> length (line_fields l)}"
    using po by (force simp: dom_map_of_conv_image_fst props_of_def is_prop_def image_iff)
  have v: "\<forall>l\<in>set body. 2 \<le> length (line_fields l) \<longrightarrow>
      map_of (props_of body) (hd (line_fields l)) = Some (spaced (tl (line_fields l)))"
  proof (intro ballI impI)
    fix l assume l: "l \<in> set body" "2 \<le> length (line_fields l)"
    then have "prop_of l \<in> set (props_of body)"
      by (auto simp: props_of_def is_prop_def)
    then have "(hd (line_fields l), spaced (tl (line_fields l))) \<in> set (props_of body)"
      using po [OF l(2)] by simp
    then show "map_of (props_of body) (hd (line_fields l)) = Some (spaced (tl (line_fields l)))"
      using assms(9) by simp
  qed
  show ?thesis
    using r1(1) r2 d v by (intro exI [of _ "?c\<lparr>Props := map_of (props_of body)\<rparr>"] exI) auto
qed

lemma blank_SPACE: "blank SPACE"
  by (simp add: blank_def IsSpace_def)

theorem Read_single_block_witness:
  "\<exists>co g1 rd1 rd2.
     Read sample_env False [] sample_world
       (NewReader (runes ''# c\<newline>define service{\<newline> host_name h1\<newline> check_command a b  c\<newline>}\<newline>'') []) =
       Ret (Some co, None, g1, rd1) \<and>
     Type co = T_KIND 8 \<and>
     dom (Props co) = {runes ''host_name'', runes ''check_command''} \<and>
     Props co (runes ''host_name'') = Some (runes ''h1'') \<and>
     Props co (runes ''check_command'') = Some (runes ''a b c'') \<and>
     Read sample_env False [] g1 rd1 = Ret (None, Some EOF, g1, rd2)"
proof -
  let ?pre = "[CommentLine (runes '' c'')]"
  let ?l1 = "FieldLine [SPACE] [(runes ''host_name'', [SPACE]), (runes ''h1'', [])] False"
  let ?l2 = "FieldLine [SPACE] [(runes ''check_command'', [SPACE]), (runes ''a'', [SPACE]),
               (runes ''b'', [SPACE, SPACE]), (runes ''c'', [])] False"
  let ?body = "[FieldLine [] [] False, ?l1, ?l2]"
  let ?post = "[FieldLine [] [] False]"
  have t: "block_text ?pre [] [SPACE] (runes ''service'') [] ?body [] ?post =
      runes ''# c\<newline>define service{\<newline> host_name h1\<newline> check_command a b  c\<newline>}\<newline>''"
    by (simp add: block_text_def lines_text_def header_text_def runes_def)
  have h1: "DEF_ALIGN sample_env = 32" by (simp add: sample_env_def)
  have h2: "\<forall>l\<in>set ?pre. line_ok 32 l" by (simp add: runes_def)
  have h3: "header_ok 32 [] [SPACE] (runes ''service'') []"
    by (simp add: header_ok_def field_ok_def runes_def IsSpace_def blank_def)
  have h4: "\<forall>l\<in>set ?body. line_ok 32 l"
    by (simp add: field_ok_def runes_def IsSpace_def blank_def)
  have h5: "\<forall>x\<in>set ([] :: gostring). blank x" by simp
  have h6: "\<forall>l\<in>set ?post. line_ok 32 l" by simp
  have h7: "CfgName_Type sample_env (runes ''service'') = T_KIND 8"
    by (simp add: sample_env_def)
  have h8: "T_KIND 8 \<noteq> T_INVALID" by simp
  have h9: "distinct (map fst (props_of ?body))"
    by (simp add: props_of_def is_prop_def prop_of_def runes_def)
  have s: "{hd (line_fields l) |l. l \<in> set ?body \<and> 2 \<le> length (line_fields l)} =
      {runes ''host_name'', runes ''check_command''}"
    by (auto intro: exI [of _ ?l1] exI [of _ ?l2])
  from Read_single_block [OF h1 h2 h3 h4 h5 h6 h7 h8 h9, of False "[]" sample_world]
  show ?thesis
    unfolding t s by (auto simp: runes_def)
qed

section \<open>Printing and reading back\<close>

lemma rest_ok_high: "\<forall>x\<in>set w. \<not> IsSpace x \<Longrightarrow> al < c \<Longrightarrow> rest_ok al c w"
  by (induction w arbitrary: c) auto

lemma rest_ok_nobrace: "\<forall>x\<in>set w. \<not> IsSpace x \<and> x \<noteq> LBRACE \<Longrightarrow> rest_ok al c w"
  by (induction w arbitrary: c) auto

lemma field_ok_high: "plain_field w \<Longrightarrow> al \<le> c \<Longrightarrow> field_ok al c w"
  by (cases w) (auto simp: plain_field_def field_ok_def intro: rest_ok_high)

lemma field_ok_nobrace: "plain_field w \<Longrightarrow> LBRACE \<notin> set w \<Longrightarrow> field_ok al c w"
  by (cases w) (auto simp: plain_field_def field_ok_def intro!: rest_ok_nobrace)

lemma val_toks_text: "toks_text (val_toks vs) = Join vs [SPACE]"
  by (induction vs rule: val_toks.induct) auto

lemma val_toks_fields: "map fst (val_toks vs) = vs"
  by (induction vs rule: val_toks.induct) auto

lemma val_toks_ok:
  "\<forall>v\<in>set vs. plain_field v \<Longrightarrow> al \<le> c \<Longrightarrow> toks_ok al c (val_toks vs)"
proof (induction vs arbitrary: c rule: val_toks.induct)
  case 1
  then show ?case by simp
next
  case (2 v)
  then show ?case by (simp add: field_ok_high)
next
  case (3 v u vs)
  have "toks_ok al (c + int (length v) + 1) (val_toks (u # vs))"
    using 3 by (intro "3.IH") auto
  then show ?case using 3 by (simp add: field_ok_high blank_SPACE)
qed

lemma print_line_text:
  "line_text (print_line co k vs) = prop_line co k (Join vs [SPACE])"
  by (simp add: print_line_def prop_line_def val_toks_text)

lemma print_line_fields: "line_fields (print_line co k vs) = k # vs"
  by (simp add: print_line_def val_toks_fields)

lemma print_line_ok:
  assumes "plain_field k" and "LBRACE \<notin> set k" and "length k < Align co"
    and "Indent co = 0 \<longrightarrow> hd k \<noteq> HASH"
    and "\<forall>v\<in>set vs. plain_field v" and "al \<le> int (Indent co + Align co)"
  shows "line_ok al (print_line co k vs)"
proof -
  have "int (Indent co) + int (length k) + int (Align co - length k) = int (Indent co + Align co)"
    using assms(3) by simp
  then have "toks_ok al (int (Indent co) + int (length k) + int (Align co - length k)) (val_toks vs)"
    using val_toks_ok [OF assms(5), of al] assms(6) by simp
  then show ?thesis
    using assms(1-4) by (simp add: print_line_def field_ok_nobrace blank_SPACE)
qed

lemma print_line_prop:
  "vs \<noteq> [] \<Longrightarrow> is_prop (print_line co k vs) \<and>
     prop_of (print_line co k vs) = (k, Join vs [SPACE])"
  by (cases vs) (simp_all add: is_prop_def prop_of_def print_line_fields)

lemma lines_text_Nil: "lines_text [] = []"
  by (simp add: lines_text_def)

lemma lines_text_Cons: "lines_text (l # ls) = line_text l @ lines_text ls"
  by (simp add: lines_text_def)

text \<open>
  Printing an object of the right shape and reading the text back. The properties
  are keys with values that are single-space joins of one or more plain fields; the
  keys are brace-free and shorter than \<open>Align\<close>; the values are printed at or
  beyond the threshold column.
\<close>

lemma Print_Read_shape:
  assumes al: "DEF_ALIGN e = al" "al \<le> int (Indent co + Align co)"
    and props: "Props co = map_of (map (\<lambda>(k, vs). (k, Join vs [SPACE])) kvs)"
    and keys: "\<forall>(k, vs)\<in>set kvs. plain_field k \<and> LBRACE \<notin> set k \<and> length k < Align co \<and>
                 (Indent co = 0 \<longrightarrow> hd k \<noteq> HASH) \<and> vs \<noteq> [] \<and> (\<forall>v\<in>set vs. plain_field v)"
    and order: "distinct ks" "set ks = dom (Props co)"
    and ty: "field_ok al 7 (CfgType_String e (Type co))"
        "7 + int (length (CfgType_String e (Type co))) \<le> al"
        "CfgName_Type e (CfgType_String e (Type co)) = Type co" "Type co \<noteq> T_INVALID"
    and cmt: "generateComment e co = [] \<or>
              (hd (generateComment e co) = HASH \<and> LF \<notin> set (generateComment e co))"
  shows "\<exists>co' g' rd'. Read e setUUID fileID g (NewReader (Print e ks co) []) =
             Ret (Some co', None, g', rd') \<and>
           Props co' = Props co \<and> Type co' = Type co"
proof -
  define vs_of where "vs_of k = the (map_of kvs k)" for k
  define gc where "gc = generateComment e co"
  define tn where "tn = CfgType_String e (Type co)"
  define pre where "pre = [if gc = [] then FieldLine [] [] False else CommentLine (tl gc)]"
  define body where "body = FieldLine [] [] False # map (\<lambda>k. print_line co k (vs_of k)) ks"
  define foot where "foot = replicate (Indent co) SPACE"
  have P: "Props co = map_option (\<lambda>vs. Join vs [SPACE]) \<circ> map_of kvs"
    unfolding props by (rule ext) (simp add: map_of_map [symmetric] case_prod_unfold)
  have k_in: "\<And>k. k \<in> set ks \<Longrightarrow> (k, vs_of k) \<in> set kvs \<and>
      Props co k = Some (Join (vs_of k) [SPACE])"
  proof -
    fix k assume "k \<in> set ks"
    then have "k \<in> dom (Props co)" using order(2) by simp
    then obtain vs where "map_of kvs k = Some vs" using P by (auto simp: dom_def)
    then show "(k, vs_of k) \<in> set kvs \<and> Props co k = Some (Join (vs_of k) [SPACE])"
      using P by (auto simp: vs_of_def dest: map_of_SomeD)
  qed
  have pp: "PrintProps co ks = lines_text (map (\<lambda>k. print_line co k (vs_of k)) ks)"
    using k_in by (induction ks) (auto simp: PrintProps_def lines_text_def print_line_text)
  have pre_text: "lines_text pre = gc @ [LF]"
    using cmt by (cases gc) (auto simp: pre_def lines_text_def gc_def)
  have btext: "buf (NewReader (Print e ks co) []) =
      lines_text pre @ header_text [] [SPACE] tn [] @ lines_text body @ foot @
        RBRACE # lines_text [FieldLine [] [] False]"
    by (simp add: NewReader_def Print_def pre_text header_text_def body_def foot_def pp
        lines_text_Nil lines_text_Cons gc_def [symmetric] tn_def runes_def)
  have pre_ok: "\<forall>l\<in>set pre. line_ok al l"
    using cmt by (cases gc) (auto simp: pre_def gc_def)
  have hdr_ok: "header_ok al [] [SPACE] tn []"
    using ty(1,2) by (simp add: header_ok_def tn_def blank_SPACE field_ok_def runes_def IsSpace_def)
  have body_ok: "\<forall>l\<in>set body. line_ok al l"
  proof
    fix l assume "l \<in> set body"
    then consider "l = FieldLine [] [] False" | k where "k \<in> set ks" "l = print_line co k (vs_of k)"
      by (auto simp: body_def)
    then show "line_ok al l"
    proof cases
      case 1
      then show ?thesis by simp
    next
      case 2
      then have "(k, vs_of k) \<in> set kvs" using k_in by blast
      then show ?thesis using keys 2(2) al(2) by (auto intro!: print_line_ok)
    qed
  qed
  have foot_ok: "\<forall>x\<in>set foot. blank x" by (simp add: foot_def blank_SPACE)
  have tyn: "CfgName_Type e tn = Type co" using ty(3) by (simp add: tn_def)
  have c: "Comment (NewReader (Print e ks co) []) = HASH" by (simp add: NewReader_def)
  obtain rd' where r: "Read e setUUID fileID g (NewReader (Print e ks co) []) =
      Ret (Some ((fst (start_obj e setUUID fileID (Type co) g))\<lparr>Props := map_of (props_of body)\<rparr>),
           None, snd (start_obj e setUUID fileID (Type co) g), rd')"
    using Read_block [OF al(1) pre_ok hdr_ok body_ok foot_ok tyn ty(4) c btext] by blast
  have po: "props_of body = map (\<lambda>k. (k, Join (vs_of k) [SPACE])) ks"
  proof -
    have "\<And>k. k \<in> set ks \<Longrightarrow> vs_of k \<noteq> []" using k_in keys by fastforce
    then have "props_of (map (\<lambda>k. print_line co k (vs_of k)) ks) =
        map (\<lambda>k. (k, Join (vs_of k) [SPACE])) ks"
      by (induction ks) (auto simp: props_of_def print_line_prop)
    then show ?thesis by (simp add: body_def props_of_def is_prop_def)
  qed
  have "map_of (props_of body) = Props co"
  proof (rule ext)
    fix x
    show "map_of (props_of body) x = Props co x"
    proof (cases "x \<in> set ks")
      case True
      then have "map_of (props_of body) x = Some (Join (vs_of x) [SPACE])"
        unfolding po by (induction ks) auto
      then show ?thesis using k_in True by simp
    next
      case False
      then have "map_of (props_of body) x = None"
        unfolding po by (induction ks) auto
      moreover have "Props co x = None" using False order(2) by auto
      ultimately show ?thesis by simp
    qed
  qed
  then show ?thesis using r by (intro exI conjI) (rule r, simp_all)
qed

lemma pad_numeral: "replicate (numeral n) (c :: rune) = c # replicate (pred_numeral n) c"
  by (simp add: numeral_eq_Suc)

lemmas print_defs = Print_def PrintProps_def prop_line_def pad_numeral

text \<open>
  C8 as stated fails. \<^verbatim>\<open>Read\<close> produces an object with a key of 32 runes;
  \<^verbatim>\<open>Print\<close> pads keys to \<open>Align = 32\<close> runes, so the key and its value are
  printed with nothing between them, and reading the text back gives an object
  with no properties.
\<close>

theorem Print_Read_long_key:
  "Read sample_env False [] sample_world
     (NewReader (runes ''define service{\<newline>aaaaaaaaaaaaaaaaaaaaaaaaaaaaaaaa v\<newline>}\<newline>'') []) =
     Ret (Some long_key_obj, None, sample_world,
       \<lparr>Comment = HASH, line = 4, inputline = 2, column = 0, field = [],
        buf = [LF], lastRune = Some RBRACE, later = []\<rparr>) \<and>
   Props long_key_obj long_key = Some (runes ''v'') \<and>
   Print sample_env [long_key] long_key_obj =
     runes ''# service\<newline>define service{\<newline>    aaaaaaaaaaaaaaaaaaaaaaaaaaaaaaaav\<newline>    }\<newline>'' \<and>
   Read sample_env False [] sample_world (NewReader (Print sample_env [long_key] long_key_obj) []) =
     Ret (Some (long_key_obj\<lparr>Props := Map.empty\<rparr>), None, sample_world,
       \<lparr>Comment = HASH, line = 5, inputline = 3, column = 4, field = [],
        buf = [LF], lastRune = Some RBRACE, later = []\<rparr>)"
proof -
  have a: "Read sample_env False [] sample_world
     (NewReader (runes ''define service{\<newline>aaaaaaaaaaaaaaaaaaaaaaaaaaaaaaaa v\<newline>}\<newline>'') []) =
     Ret (Some long_key_obj, None, sample_world,
       \<lparr>Comment = HASH, line = 4, inputline = 2, column = 0, field = [],
        buf = [LF], lastRune = Some RBRACE, later = []\<rparr>)"
    by (simp add: run_defs sample_env_def sample_world_def long_key_obj_def long_key_def)
  have b: "Print sample_env [long_key] long_key_obj =
     runes ''# service\<newline>define service{\<newline>    aaaaaaaaaaaaaaaaaaaaaaaaaaaaaaaav\<newline>    }\<newline>''"
    by (simp add: print_defs sample_env_def long_key_obj_def long_key_def runes_def)
  have c: "Read sample_env False [] sample_world
     (NewReader (runes ''# service\<newline>define service{\<newline>    aaaaaaaaaaaaaaaaaaaaaaaaaaaaaaaav\<newline>    }\<newline>'') []) =
     Ret (Some (long_key_obj\<lparr>Props := Map.empty\<rparr>), None, sample_world,
       \<lparr>Comment = HASH, line = 5, inputline = 3, column = 4, field = [],
        buf = [LF], lastRune = Some RBRACE, later = []\<rparr>)"
    by (simp add: run_defs sample_env_def sample_world_def long_key_obj_def)
  show ?thesis using a c unfolding b by (simp add: long_key_obj_def)
qed

section \<open>Braces inside fields\<close>

lemma readRune_field: "readRune rd = (c, err, rd') \<Longrightarrow> field rd' = field rd"
  by (auto simp: readRune_def ReadRune_def UnreadRune_def
      split: list.splits if_splits prod.splits option.splits)

lemma accumulate_step:
  assumes "readRune (if \<not> IsSpace r1 then rd\<lparr>field := field rd @ [r1]\<rparr> else rd) = (c, err, rd1)"
  shows "accumulate al r1 rd =
     (if err \<noteq> None then (c, err, rd1)
      else if c = LBRACE then (if al < column rd1 then accumulate al c rd1 else (c, err, rd1))
      else if IsSpace c then (c, err, rd1)
      else accumulate al c rd1)"
  using assms by (subst accumulate.simps) simp

lemma accumulate_appends:
  "accumulate al r1 rd = (c, err, rd') \<Longrightarrow> \<not> IsSpace r1 \<Longrightarrow>
   \<exists>more. field rd' = field rd @ r1 # more"
proof (induction al r1 rd arbitrary: c err rd' rule: accumulate.induct)
  case (1 al r1 rd)
  let ?rd = "rd\<lparr>field := field rd @ [r1]\<rparr>"
  obtain x e1 rd1 where rr: "readRune ?rd = (x, e1, rd1)"
    by (cases "readRune ?rd") auto
  have rr': "readRune (if \<not> IsSpace r1 then rd\<lparr>field := field rd @ [r1]\<rparr> else rd) =
      (x, e1, rd1)"
    using rr "1.prems"(2) by simp
  have f1: "field rd1 = field rd @ [r1]" using readRune_field [OF rr] by simp
  show ?case
  proof (cases "e1 = None \<and> (if x = LBRACE then al < column rd1 else \<not> IsSpace x)")
    case True
    then have a: "accumulate al x rd1 = (c, err, rd')"
      using "1.prems"(1) accumulate_step [OF rr', of al] by (auto split: if_splits)
    have x: "\<not> IsSpace x" using True by (auto simp: IsSpace_def split: if_splits)
    have "\<exists>more. field rd' = field rd1 @ x # more"
    proof (cases "x = LBRACE")
      case True
      then show ?thesis
        using "1.IH"(1) [OF rr' [symmetric] refl _ _ _ a x] \<open>e1 = None \<and> _\<close> by simp
    next
      case False
      then show ?thesis
        using "1.IH"(2) [OF rr' [symmetric] refl _ _ _ a x] \<open>e1 = None \<and> _\<close> by simp
    qed
    then show ?thesis using f1 by auto
  next
    case False
    then have "rd' = rd1"
      using "1.prems"(1) accumulate_step [OF rr', of al] by (auto split: if_splits)
    then show ?thesis using f1 by simp
  qed
qed

lemma rest_ok_append:
  "rest_ok al c (u @ v) \<longleftrightarrow> rest_ok al c u \<and> rest_ok al (c + int (length u)) v"
proof (induction u arbitrary: c)
  case Nil
  then show ?case by simp
next
  case (Cons x u)
  then show ?case using Cons.IH [of "c + 1"] by (auto simp: add.assoc)
qed

lemma accumulate_through:
  "rest_ok al (column rd + 1) u \<Longrightarrow> \<not> IsSpace r1 \<Longrightarrow> buf rd = u @ rest \<Longrightarrow> u \<noteq> [] \<Longrightarrow>
   accumulate al r1 rd =
     accumulate al (last u) (rd\<lparr>field := field rd @ r1 # butlast u, buf := rest,
       lastRune := Some (last u), column := column rd + int (length u)\<rparr>)"
proof (induction u arbitrary: rd r1)
  case Nil
  then show ?case by simp
next
  case (Cons x u)
  let ?rd = "rd\<lparr>field := field rd @ [r1]\<rparr>"
  let ?rd1 = "?rd\<lparr>buf := u @ rest, lastRune := Some x, column := column rd + 1\<rparr>"
  have x: "\<not> IsSpace x" "x = LBRACE \<longrightarrow> al < column rd + 1" "rest_ok al (column rd + 1 + 1) u"
    using Cons.prems(1) by auto
  have "readRune ?rd = (x, None, ?rd1)"
    using Cons.prems(3) x(1) not_IsSpaceD [of x] readRune_sep [of ?rd "[]" x "u @ rest"]
    by auto
  then have st: "accumulate al r1 rd = accumulate al x ?rd1"
    using Cons.prems(2) x by (subst accumulate.simps) auto
  show ?case
  proof (cases u)
    case Nil
    then show ?thesis using st by simp
  next
    case (Cons y ys)
    then have "accumulate al x ?rd1 =
        accumulate al (last u) (?rd1\<lparr>field := field ?rd1 @ x # butlast u, buf := rest,
          lastRune := Some (last u), column := column ?rd1 + int (length u)\<rparr>)"
      using Cons.IH [of ?rd1 x] x by simp
    then show ?thesis using st Cons by (simp add: add.commute add.left_commute)
  qed
qed

text \<open>
  C5. In the accumulating loop of \<^verbatim>\<open>parseFields\<close>, when the rune just read is
  \<^verbatim>\<open>{\<close>: at a column beyond \<^verbatim>\<open>DEF_ALIGN\<close> the loop goes on with the brace
  in hand, and the brace is appended to the field; at a column within
  \<^verbatim>\<open>DEF_ALIGN\<close> the loop ends with the brace as the rune that ended the field,
  and \<^verbatim>\<open>parseFields\<close> reports the field with the delimiter \<^verbatim>\<open>{\<close>. On a
  field \<open>w\<close> followed by a brace: within the threshold \<^verbatim>\<open>parseFields\<close> returns the
  field \<open>w\<close> and the delimiter \<^verbatim>\<open>{\<close>, with the input after the brace left to
  read; beyond it the returned field begins with \<open>w\<close> and the brace, and the scan
  has gone on into the input after the brace (less of the stream is left than after
  the brace).
\<close>

theorem parseFields_brace_threshold:
  "(readRune (if \<not> IsSpace r1 then rd\<lparr>field := field rd @ [r1]\<rparr> else rd) = (LBRACE, None, rd1) \<longrightarrow>
      (al < column rd1 \<longrightarrow>
         accumulate al r1 rd = accumulate al LBRACE rd1 \<and>
         (\<exists>c err rd' more. accumulate al LBRACE rd1 = (c, err, rd') \<and>
            field rd' = field rd1 @ LBRACE # more)) \<and>
      (column rd1 \<le> al \<longrightarrow> accumulate al r1 rd = (LBRACE, None, rd1))) \<and>
   (field_ok al (column rd + 1) w \<and> buf rd = w @ LBRACE # rest \<and> DEF_ALIGN e = al \<longrightarrow>
      (column rd + int (length w) + 1 \<le> al \<longrightarrow>
         parseFields e rd = (True, LBRACE, None,
           rd\<lparr>field := w, buf := rest, lastRune := Some LBRACE,
              column := column rd + int (length w) + 1\<rparr>)) \<and>
      (al < column rd + int (length w) + 1 \<longrightarrow>
         (\<exists>h d err rd' more. parseFields e rd = (h, d, err, rd') \<and>
            field rd' = w @ LBRACE # more \<and>
            (rest \<noteq> [] \<longrightarrow> remaining rd' < remaining (rd\<lparr>buf := rest\<rparr>)))))"
proof (intro conjI impI)
  assume rr: "readRune (if \<not> IsSpace r1 then rd\<lparr>field := field rd @ [r1]\<rparr> else rd) =
      (LBRACE, None, rd1)" and hi: "al < column rd1"
  show "accumulate al r1 rd = accumulate al LBRACE rd1"
    using accumulate_step [OF rr, of al] hi by simp
  obtain c err rd' where a: "accumulate al LBRACE rd1 = (c, err, rd')"
    by (cases "accumulate al LBRACE rd1") auto
  then obtain more where "field rd' = field rd1 @ LBRACE # more"
    using accumulate_appends [OF a] by (auto simp: IsSpace_def)
  then show "\<exists>c err rd' more. accumulate al LBRACE rd1 = (c, err, rd') \<and>
            field rd' = field rd1 @ LBRACE # more"
    using a by blast
next
  assume rr: "readRune (if \<not> IsSpace r1 then rd\<lparr>field := field rd @ [r1]\<rparr> else rd) =
      (LBRACE, None, rd1)" and lo: "column rd1 \<le> al"
  show "accumulate al r1 rd = (LBRACE, None, rd1)"
    using accumulate_step [OF rr, of al] lo by simp
next
  assume h: "field_ok al (column rd + 1) w \<and> buf rd = w @ LBRACE # rest \<and> DEF_ALIGN e = al"
    and lo: "column rd + int (length w) + 1 \<le> al"
  have st: "stops al (column rd + int (length []) + int (length w) + 1) LBRACE"
    using lo by (simp add: stops_def)
  show "parseFields e rd = (True, LBRACE, None,
           rd\<lparr>field := w, buf := rest, lastRune := Some LBRACE,
              column := column rd + int (length w) + 1\<rparr>)"
    using parseFields_token [of "[]" al rd w "[]" LBRACE rest e] h st by simp
next
  assume h: "field_ok al (column rd + 1) w \<and> buf rd = w @ LBRACE # rest \<and> DEF_ALIGN e = al"
    and hi: "al < column rd + int (length w) + 1"
  obtain x xs where wx: "w = x # xs" using h by (cases w) (auto simp: field_ok_def)
  have x: "\<not> IsSpace x" "x \<noteq> LBRACE" "x \<noteq> RBRACE" "rest_ok al (column rd + 1 + 1) xs"
    using h wx by (auto simp: field_ok_def)
  let ?rd0 = "rd\<lparr>field := []\<rparr>"
  let ?rd1 = "?rd0\<lparr>buf := xs @ LBRACE # rest, lastRune := Some x, column := column rd + 1\<rparr>"
  have "skipSpace ?rd0 = (x, None, ?rd0\<lparr>buf := xs @ LBRACE # rest, lastRune := Some x,
     column := column ?rd0 + int (length ([] :: gostring)) + 1,
     inputline := inputline ?rd0 + (if x = LF \<and> ([] :: gostring) = [] then 1 else 0)\<rparr>)"
    using skipSpace_blanks [of "[]" ?rd0 "[]" x "xs @ LBRACE # rest"] h wx x(1) by simp
  then have ss: "skipSpace ?rd0 = (x, None, ?rd1)"
    using not_IsSpaceD [OF x(1)] by simp
  let ?rd2 = "?rd1\<lparr>field := field ?rd1 @ x # butlast (xs @ [LBRACE]), buf := rest,
       lastRune := Some (last (xs @ [LBRACE])),
       column := column ?rd1 + int (length (xs @ [LBRACE]))\<rparr>"
  have "column rd + 1 + 1 + int (length xs) = column rd + int (length w) + 1"
    using wx by simp
  then have "rest_ok al (column rd + 1 + 1 + int (length xs)) [LBRACE]"
    using hi by (simp add: IsSpace_def)
  then have ro: "rest_ok al (column ?rd1 + 1) (xs @ [LBRACE])"
    using x(4) by (simp add: rest_ok_append)
  have thr: "accumulate al x ?rd1 = accumulate al LBRACE ?rd2"
    using accumulate_through [OF ro x(1), of rest] by simp
  obtain c err rd' where a: "accumulate al LBRACE ?rd2 = (c, err, rd')"
    by (cases "accumulate al LBRACE ?rd2") auto
  obtain more where f: "field rd' = w @ LBRACE # more"
    using accumulate_appends [OF a] wx by (auto simp: IsSpace_def)
  have len: "rest \<noteq> [] \<longrightarrow> remaining rd' < remaining (rd\<lparr>buf := rest\<rparr>)"
  proof
    assume "rest \<noteq> []"
    then have "remaining ?rd2 \<noteq> 0" by (simp add: remaining_def)
    then have "remaining rd' < remaining ?rd2"
      using accumulate_advance [OF a] by (simp add: advance_def)
    then show "remaining rd' < remaining (rd\<lparr>buf := rest\<rparr>)"
      by (simp add: remaining_def)
  qed
  have "\<exists>h d. parseFields e rd = (h, d, err, rd')"
    using ss thr a h x not_IsSpaceD [OF x(1)] by (auto simp: parseFields_def)
  then obtain h0 d0 where pf: "parseFields e rd = (h0, d0, err, rd')" by blast
  show "\<exists>h d err rd' more. parseFields e rd = (h, d, err, rd') \<and>
            field rd' = w @ LBRACE # more \<and>
            (rest \<noteq> [] \<longrightarrow> remaining rd' < remaining (rd\<lparr>buf := rest\<rparr>))"
    by (intro exI [of _ h0] exI [of _ d0] exI [of _ err] exI [of _ rd'] exI [of _ more] conjI)
       (use pf f len in simp_all)
qed

theorem parseFields_brace_threshold_witness:
  "accumulate 32 97 ((NewReader (runes ''{x\<newline>'') [])\<lparr>column := 40\<rparr>) =
     accumulate 32 LBRACE
       ((NewReader (runes ''x\<newline>'') [])\<lparr>column := 41, field := [97], lastRune := Some LBRACE\<rparr>) \<and>
   accumulate 32 97 ((NewReader (runes ''{x\<newline>'') [])\<lparr>column := 5\<rparr>) =
     (LBRACE, None,
      (NewReader (runes ''x\<newline>'') [])\<lparr>column := 6, field := [97], lastRune := Some LBRACE\<rparr>) \<and>
   parseFields sample_env ((NewReader (runes ''ab{cd\<newline>'') [])\<lparr>column := - 1\<rparr>) =
     (True, LBRACE, None,
      (NewReader (runes ''cd\<newline>'') [])\<lparr>field := runes ''ab'', lastRune := Some LBRACE,
        column := 2\<rparr>) \<and>
   parseFields sample_env ((NewReader (runes ''ab{cd\<newline>'') [])\<lparr>column := 40\<rparr>) =
     (True, LF, None,
      (NewReader [] [])\<lparr>field := runes ''ab{cd'', lastRune := Some LF, column := 46,
        inputline := 1\<rparr>)"
proof -
  let ?hi = "(NewReader (runes ''{x\<newline>'') [])\<lparr>column := 40\<rparr>"
  let ?hi1 = "(NewReader (runes ''x\<newline>'') [])\<lparr>column := 41, field := [97], lastRune := Some LBRACE\<rparr>"
  let ?lo = "(NewReader (runes ''{x\<newline>'') [])\<lparr>column := 5\<rparr>"
  let ?lo1 = "(NewReader (runes ''x\<newline>'') [])\<lparr>column := 6, field := [97], lastRune := Some LBRACE\<rparr>"
  let ?w = "(NewReader (runes ''ab{cd\<newline>'') [])\<lparr>column := - 1\<rparr>"
  have r1: "readRune (if \<not> IsSpace 97 then ?hi\<lparr>field := field ?hi @ [97]\<rparr> else ?hi) =
      (LBRACE, None, ?hi1)"
    by (simp add: run_defs)
  have r2: "readRune (if \<not> IsSpace 97 then ?lo\<lparr>field := field ?lo @ [97]\<rparr> else ?lo) =
      (LBRACE, None, ?lo1)"
    by (simp add: run_defs)
  have a1: "accumulate 32 97 ?hi = accumulate 32 LBRACE ?hi1"
    using parseFields_brace_threshold [of 97 ?hi ?hi1 32] r1 by (simp add: NewReader_def)
  have a2: "accumulate 32 97 ?lo = (LBRACE, None, ?lo1)"
    using parseFields_brace_threshold [of 97 ?lo ?lo1 32] r2 by (simp add: NewReader_def)
  have f: "field_ok 32 (column ?w + 1) (runes ''ab'')"
    by (simp add: field_ok_def runes_def IsSpace_def)
  have a3: "parseFields sample_env ?w =
     (True, LBRACE, None,
      (NewReader (runes ''cd\<newline>'') [])\<lparr>field := runes ''ab'', lastRune := Some LBRACE,
        column := 2\<rparr>)"
    using parseFields_brace_threshold [where rd = ?w and al = 32 and w = "runes ''ab''"
        and rest = "runes ''cd\<newline>''" and e = sample_env] f
    by (simp add: NewReader_def runes_def sample_env_def)
  have a4: "parseFields sample_env ((NewReader (runes ''ab{cd\<newline>'') [])\<lparr>column := 40\<rparr>) =
     (True, LF, None,
      (NewReader [] [])\<lparr>field := runes ''ab{cd'', lastRune := Some LF, column := 46,
        inputline := 1\<rparr>)"
    by (simp add: run_defs sample_env_def)
  show ?thesis using a1 a2 a3 a4 by simp
qed

section \<open>The objects that Read builds\<close>

lemma skipSpace_field: "skipSpace rd = (c, err, rd') \<Longrightarrow> field rd' = field rd"
proof (induction rd arbitrary: c err rd' rule: skipSpace.induct)
  case (1 rd)
  obtain x e1 rd1 where rr: "readRune rd = (x, e1, rd1)"
    by (cases "readRune rd") auto
  have f: "field rd1 = field rd" using rr by (rule readRune_field)
  show ?case
  proof (cases "e1 = None \<and> x \<noteq> LF \<and> IsSpace x")
    case True
    then have "skipSpace rd1 = (c, err, rd')"
      using "1.prems" rr by (subst (asm) skipSpace.simps) simp
    then show ?thesis using "1.IH" [OF rr [symmetric] refl] True f by simp
  next
    case False
    then have "rd' = rd1"
      using "1.prems" rr by (subst (asm) skipSpace.simps) (auto split: if_splits)
    then show ?thesis using f by simp
  qed
qed

lemma skipSpace_rune:
  "skipSpace rd = (c, None, rd') \<Longrightarrow> c = LF \<or> \<not> IsSpace c"
proof (induction rd arbitrary: c rd' rule: skipSpace.induct)
  case (1 rd)
  obtain x e1 rd1 where rr: "readRune rd = (x, e1, rd1)"
    by (cases "readRune rd") auto
  show ?case
  proof (cases "e1 = None \<and> x \<noteq> LF \<and> IsSpace x")
    case True
    then have "skipSpace rd1 = (c, None, rd')"
      using "1.prems" rr by (subst (asm) skipSpace.simps) simp
    then show ?thesis using "1.IH" [OF rr [symmetric] refl] True by simp
  next
    case False
    then have "c = x \<and> e1 = None"
      using "1.prems" rr by (subst (asm) skipSpace.simps) (auto split: if_splits)
    then show ?thesis using False by auto
  qed
qed

lemma accumulate_nonspace:
  "accumulate al r1 rd = (c, err, rd') \<Longrightarrow> \<not> IsSpace r1 \<Longrightarrow>
   \<exists>more. field rd' = field rd @ r1 # more \<and> (\<forall>x\<in>set more. \<not> IsSpace x)"
proof (induction al r1 rd arbitrary: c err rd' rule: accumulate.induct)
  case (1 al r1 rd)
  let ?rd = "rd\<lparr>field := field rd @ [r1]\<rparr>"
  obtain x e1 rd1 where rr: "readRune ?rd = (x, e1, rd1)"
    by (cases "readRune ?rd") auto
  have rr': "readRune (if \<not> IsSpace r1 then rd\<lparr>field := field rd @ [r1]\<rparr> else rd) =
      (x, e1, rd1)"
    using rr "1.prems"(2) by simp
  have f1: "field rd1 = field rd @ [r1]" using readRune_field [OF rr] by simp
  show ?case
  proof (cases "e1 = None \<and> (if x = LBRACE then al < column rd1 else \<not> IsSpace x)")
    case True
    then have a: "accumulate al x rd1 = (c, err, rd')"
      using "1.prems"(1) accumulate_step [OF rr', of al] by (auto split: if_splits)
    have x: "\<not> IsSpace x" using True by (auto simp: IsSpace_def split: if_splits)
    have "\<exists>more. field rd' = field rd1 @ x # more \<and> (\<forall>y\<in>set more. \<not> IsSpace y)"
    proof (cases "x = LBRACE")
      case True
      then show ?thesis
        using "1.IH"(1) [OF rr' [symmetric] refl _ _ _ a x] \<open>e1 = None \<and> _\<close> by simp
    next
      case False
      then show ?thesis
        using "1.IH"(2) [OF rr' [symmetric] refl _ _ _ a x] \<open>e1 = None \<and> _\<close> by simp
    qed
    then obtain more where "field rd' = field rd1 @ x # more" "\<forall>y\<in>set more. \<not> IsSpace y"
      by blast
    then have "field rd' = field rd @ r1 # (x # more) \<and> (\<forall>y\<in>set (x # more). \<not> IsSpace y)"
      using f1 x by simp
    then show ?thesis by blast
  next
    case False
    then have "rd' = rd1"
      using "1.prems"(1) accumulate_step [OF rr', of al] by (auto split: if_splits)
    then have "field rd' = field rd @ r1 # [] \<and> (\<forall>y\<in>set []. \<not> IsSpace y)"
      using f1 by simp
    then show ?thesis by blast
  qed
qed

lemma parseFields_plain:
  assumes "parseFields e rd = (True, d, None, rd')" and "d \<noteq> RBRACE"
  shows "plain_field (field rd')"
proof -
  obtain c e1 rd1 where ss: "skipSpace (rd\<lparr>field := []\<rparr>) = (c, e1, rd1)"
    by (cases "skipSpace (rd\<lparr>field := []\<rparr>)") auto
  obtain c2 e2 rd2 where ac: "accumulate (DEF_ALIGN e) c rd1 = (c2, e2, rd2)"
    by (cases "accumulate (DEF_ALIGN e) c rd1") auto
  have e1: "e1 = None"
    using assms ss by (auto simp: parseFields_def split: if_splits prod.splits)
  have c: "c \<noteq> LF \<and> c \<noteq> LBRACE \<and> c \<noteq> RBRACE \<and> rd' = rd2"
    using assms ss ac e1 by (auto simp: parseFields_def split: if_splits)
  then have ns: "\<not> IsSpace c" using skipSpace_rune ss e1 by blast
  have "field rd1 = []" using skipSpace_field [OF ss] by simp
  then obtain more where "field rd2 = c # more" "\<forall>x\<in>set more. \<not> IsSpace x"
    using accumulate_nonspace [OF ac ns] by auto
  then show ?thesis using c ns by (simp add: plain_field_def)
qed

lemma parseLine_loop_plain:
  "parseLine_loop e fs rd = (fs', IO_OBJ_IN, err, rd') \<Longrightarrow> \<forall>f\<in>set fs. plain_field f \<Longrightarrow>
   \<forall>f\<in>set fs'. plain_field f"
proof (induction e fs rd arbitrary: fs' err rd' rule: parseLine_loop.induct)
  case (1 e fs rd)
  obtain h d e1 rd1 where pf: "parseFields e rd = (h, d, e1, rd1)"
    by (cases "parseFields e rd") auto
  let ?fs = "if h then fs @ [field rd1] else fs"
  show ?case
  proof (cases "d = LF")
    case True
    then have r: "fs' = ?fs \<and> err = e1"
      using "1.prems"(1) pf by (subst (asm) parseLine_loop.simps) (auto simp: Let_def)
    then have "e1 = None"
      using parseLine_loop_state_err [OF "1.prems"(1)] by simp
    then have "h \<longrightarrow> plain_field (field rd1)"
      using parseFields_plain [of e rd d rd1] pf True by auto
    then show ?thesis using r "1.prems"(2) by auto
  next
    case False
    then have c: "d \<noteq> LBRACE \<and> d \<noteq> RBRACE \<and> d \<noteq> LF \<and> e1 = None"
      using "1.prems"(1) pf
      by (subst (asm) parseLine_loop.simps) (auto simp: Let_def split: if_splits)
    then have r: "parseLine_loop e ?fs rd1 = (fs', IO_OBJ_IN, err, rd')"
      using "1.prems"(1) pf by (subst (asm) parseLine_loop.simps) (simp add: Let_def)
    have "h \<longrightarrow> plain_field (field rd1)"
      using parseFields_plain [of e rd d rd1] pf c by auto
    then have "\<forall>f\<in>set ?fs. plain_field f" using "1.prems"(2) by auto
    then show ?thesis
      using "1.IH" [OF pf [symmetric] refl refl refl] r c by simp
  qed
qed

lemma parseLine_plain:
  assumes "parseLine e rd = (fs, IO_OBJ_IN, err, rd')"
  shows "\<forall>f\<in>set fs. plain_field f"
proof -
  let ?rd = "rd\<lparr>line := line rd + 1, column := - 1\<rparr>"
  obtain c e1 rd1 where rr: "ReadRune ?rd = (c, e1, rd1)"
    by (cases "ReadRune ?rd") auto
  have "parseLine_loop e [] (UnreadRune rd1) = (fs, IO_OBJ_IN, err, rd')"
    using assms rr by (simp add: parseLine_def split: if_splits prod.splits)
  then show ?thesis using parseLine_loop_plain by fastforce
qed

lemma props_shaped_Add:
  assumes "props_shaped (Props c)" and "2 \<le> length fs" and "\<forall>f\<in>set fs. plain_field f"
  shows "props_shaped (Props (CfgObj_Add (fs ! 0) (Join (drop 1 fs) [SPACE]) c))"
proof -
  have "0 < length fs" using assms(2) by arith
  then have "fs ! 0 \<in> set fs" by (rule nth_mem)
  then have k: "plain_field (fs ! 0)" using assms(3) by blast
  have "drop 1 fs \<noteq> [] \<and> (\<forall>x\<in>set (drop 1 fs). plain_field x)"
    using assms(2,3) by (auto dest: in_set_dropD)
  then have v: "value_ok (Join (drop 1 fs) [SPACE])"
    unfolding value_ok_def by blast
  show ?thesis
    using assms(1) k v by (auto simp: props_shaped_def CfgObj_Add_def split: if_splits)
qed

lemma Read_body_shaped:
  assumes "obj_shaped co"
  shows "(Read_body e setUUID fileID co prevState g rd = Continue co' prevState' g' rd' \<longrightarrow>
            obj_shaped co') \<and>
         (Read_body e setUUID fileID co prevState g rd = Return (Ret (co', err, g', rd')) \<longrightarrow>
            obj_shaped co')"
proof -
  obtain fs st er rd1 where pl: "parseLine e rd = (fs, st, er, rd1)"
    by (cases "parseLine e rd") auto
  have pf: "st = IO_OBJ_IN \<Longrightarrow> \<forall>f\<in>set fs. plain_field f"
    using parseLine_plain pl by blast
  have new: "\<And>c. Props c = Map.empty \<Longrightarrow> Type c \<noteq> T_INVALID \<Longrightarrow> obj_shaped (Some c)"
    by (simp add: obj_shaped_def props_shaped_def)
  have add: "\<And>c. co = Some c \<Longrightarrow> st = IO_OBJ_IN \<Longrightarrow> \<not> length fs < 2 \<Longrightarrow>
      obj_shaped (Some (CfgObj_Add (fs ! 0) (Join (drop 1 fs) [SPACE]) c))"
    using assms pf props_shaped_Add by (simp add: obj_shaped_def CfgObj_Add_def)
  have none: "obj_shaped None" by (simp add: obj_shaped_def)
  show ?thesis
    using assms pl new add none
    by (auto simp: Read_body_def Let_def NewCfgObjWithUUID_def NewCfgObj_def
        split: if_splits IoState.splits prod.splits)
qed

lemma Read_loop_shaped:
  "Read_loop e setUUID fileID co prevState g rd = Ret (co', err, g', rd') \<Longrightarrow>
   obj_shaped co \<Longrightarrow> obj_shaped co'"
proof (induction e setUUID fileID co prevState g rd rule: Read_loop.induct)
  case (1 e setUUID fileID co prevState g rd)
  show ?case
  proof (cases "Read_body e setUUID fileID co prevState g rd")
    case (Return res)
    then have "res = Ret (co', err, g', rd')"
      using "1.prems"(1) Read_loop_Return by simp
    then show ?thesis
      using Return Read_body_shaped [OF "1.prems"(2)] by blast
  next
    case (Continue co1 ps1 g1 rd1)
    then have r: "Read_loop e setUUID fileID co1 ps1 g1 rd1 = Ret (co', err, g', rd')"
      using "1.prems"(1) Read_loop_Continue by simp
    have "obj_shaped co1"
      using Continue Read_body_shaped [OF "1.prems"(2)] by blast
    then show ?thesis using "1.IH" [OF Continue r] by blast
  qed
qed

lemma Read_shaped:
  "Read e setUUID fileID g rd = Ret (Some co, err, g', rd') \<Longrightarrow>
   props_shaped (Props co) \<and> Type co \<noteq> T_INVALID"
  using Read_loop_shaped [of e setUUID fileID None IO_OBJ_OUT g rd "Some co" err g' rd']
  by (simp add: Read_def obj_shaped_def)

lemma shaped_kvs:
  assumes "props_shaped m"
  shows "\<exists>kvs. m = map_of (map (\<lambda>(k, vs). (k, Join vs [SPACE])) kvs) \<and>
           (\<forall>(k, vs)\<in>set kvs. k \<in> dom m \<and> plain_field k \<and> vs \<noteq> [] \<and>
              (\<forall>v\<in>set vs. plain_field v))"
proof -
  have "\<exists>ks. set ks = dom m \<and> distinct ks"
    using assms finite_distinct_list unfolding props_shaped_def by blast
  then obtain ks where ks: "set ks = dom m" "distinct ks" by blast
  define f where "f k = (SOME vs. vs \<noteq> [] \<and> (\<forall>x\<in>set vs. plain_field x) \<and>
      m k = Some (Join vs [SPACE]))" for k
  have f: "\<And>k. k \<in> dom m \<Longrightarrow> f k \<noteq> [] \<and> (\<forall>x\<in>set (f k). plain_field x) \<and>
      m k = Some (Join (f k) [SPACE])"
  proof -
    fix k assume "k \<in> dom m"
    then obtain v where v: "m k = Some v" by auto
    then have "\<exists>vs. vs \<noteq> [] \<and> (\<forall>x\<in>set vs. plain_field x) \<and> m k = Some (Join vs [SPACE])"
      using assms by (auto simp: props_shaped_def value_ok_def)
    then show "f k \<noteq> [] \<and> (\<forall>x\<in>set (f k). plain_field x) \<and> m k = Some (Join (f k) [SPACE])"
      unfolding f_def by (rule someI_ex)
  qed
  define kvs where "kvs = map (\<lambda>k. (k, f k)) ks"
  have "m = map_of (map (\<lambda>(k, vs). (k, Join vs [SPACE])) kvs)"
  proof (rule ext)
    fix x
    show "m x = map_of (map (\<lambda>(k, vs). (k, Join vs [SPACE])) kvs) x"
    proof (cases "x \<in> dom m")
      case True
      then have "x \<in> set ks" using ks by simp
      then have "map_of (map (\<lambda>(k, vs). (k, Join vs [SPACE])) kvs) x = Some (Join (f x) [SPACE])"
        unfolding kvs_def by (induction ks) auto
      then show ?thesis using f True by simp
    next
      case False
      then have "x \<notin> set ks" using ks by simp
      then have "map_of (map (\<lambda>(k, vs). (k, Join vs [SPACE])) kvs) x = None"
        unfolding kvs_def by (induction ks) auto
      then show ?thesis using False by auto
    qed
  qed
  moreover have "\<forall>(k, vs)\<in>set kvs. k \<in> dom m \<and> plain_field k \<and> vs \<noteq> [] \<and>
              (\<forall>v\<in>set vs. plain_field v)"
    using f ks assms by (auto simp: kvs_def props_shaped_def)
  ultimately show ?thesis by blast
qed

section \<open>Comment lines\<close>

lemma readRune_twin_eq:
  assumes "buf rd1 = buf rd2" and "later rd1 = later rd2" and "Comment rd1 = Comment rd2"
    and "column rd1 = column rd2" and "readRune rd1 = (x, err, rd1')"
  shows "\<exists>rd2'. readRune rd2 = (x, err, rd2') \<and> column rd1' = column rd2' \<and> Comment rd1' = Comment rd1 \<and>
           Comment rd1' = Comment rd2' \<and> later rd1' = later rd2' \<and> buf rd1' = buf rd2'"
  using assms
  by (auto simp: readRune_def ReadRune_def UnreadRune_def
      split: list.splits if_splits prod.splits option.splits)

lemma readRune_twin_pre:
  assumes "p \<noteq> []" and "last p = LF" and "buf rd1 = p @ s1" and "buf rd2 = p @ s2"
    and "later rd1 = later rd2" and "Comment rd1 = Comment rd2"
    and "column rd1 = column rd2" and "readRune rd1 = (x, err, rd1')"
  shows "\<exists>rd2' p'. readRune rd2 = (x, err, rd2') \<and> column rd1' = column rd2' \<and> Comment rd1' = Comment rd1 \<and>
           Comment rd1' = Comment rd2' \<and> later rd1' = later rd2' \<and> err = None \<and>
           buf rd1' = p' @ s1 \<and> buf rd2' = p' @ s2 \<and>
           ((p' \<noteq> [] \<and> last p' = LF) \<or> (p' = [] \<and> x = LF))"
proof -
  obtain a p1 where p: "p = a # p1" using assms(1) by (cases p) auto
  show ?thesis
  proof (cases "a = CR")
    case False
    have r1: "readRune rd1 = (a, None, rd1\<lparr>buf := p1 @ s1, lastRune := Some a,
        inputline := inputline rd1 + (if a = LF then 1 else 0), column := column rd1 + 1\<rparr>)"
      using assms(3) p False by (simp add: readRune_def ReadRune_def)
    have r2: "readRune rd2 = (a, None, rd2\<lparr>buf := p1 @ s2, lastRune := Some a,
        inputline := inputline rd2 + (if a = LF then 1 else 0), column := column rd2 + 1\<rparr>)"
      using assms(4) p False by (simp add: readRune_def ReadRune_def)
    have e: "(p1 \<noteq> [] \<and> last p1 = LF) \<or> (p1 = [] \<and> a = LF)"
      using assms(2) p by (cases p1) auto
    show ?thesis
      using r1 r2 e assms(5-8)
      by (intro exI [of _ "rd2\<lparr>buf := p1 @ s2, lastRune := Some a,
        inputline := inputline rd2 + (if a = LF then 1 else 0), column := column rd2 + 1\<rparr>"]
          exI [of _ p1]) auto
  next
    case True
    then obtain b p2 where p1: "p1 = b # p2"
      using assms(2) p by (cases p1) auto
    show ?thesis
    proof (cases "b = LF")
      case True
      have r1: "readRune rd1 = (LF, None, rd1\<lparr>buf := p2 @ s1, lastRune := Some LF,
          column := column rd1 + 1\<rparr>)"
        using assms(3) p p1 \<open>a = CR\<close> True by (simp add: readRune_def ReadRune_def)
      have r2: "readRune rd2 = (LF, None, rd2\<lparr>buf := p2 @ s2, lastRune := Some LF,
          column := column rd2 + 1\<rparr>)"
        using assms(4) p p1 \<open>a = CR\<close> True by (simp add: readRune_def ReadRune_def)
      have e: "(p2 \<noteq> [] \<and> last p2 = LF) \<or> p2 = []"
        using assms(2) p p1 by (cases p2) auto
      show ?thesis
        using r1 r2 e assms(5-8)
        by (intro exI [of _ "rd2\<lparr>buf := p2 @ s2, lastRune := Some LF, column := column rd2 + 1\<rparr>"]
            exI [of _ p2]) auto
    next
      case False
      have r1: "readRune rd1 = (CR, None, rd1\<lparr>buf := p1 @ s1, lastRune := None,
          column := column rd1 + 1\<rparr>)"
        using assms(3) p p1 \<open>a = CR\<close> False
        by (simp add: readRune_def ReadRune_def UnreadRune_def)
      have r2: "readRune rd2 = (CR, None, rd2\<lparr>buf := p1 @ s2, lastRune := None,
          column := column rd2 + 1\<rparr>)"
        using assms(4) p p1 \<open>a = CR\<close> False
        by (simp add: readRune_def ReadRune_def UnreadRune_def)
      have e: "p1 \<noteq> [] \<and> last p1 = LF" using assms(2) p p1 by simp
      show ?thesis
        using r1 r2 e assms(5-8)
        by (intro exI [of _ "rd2\<lparr>buf := p1 @ s2, lastRune := None, column := column rd2 + 1\<rparr>"]
            exI [of _ p1]) auto
    qed
  qed
qed

lemma readRune_twin:
  assumes "tied s1 s2 rd1 rd2" and "column rd1 = column rd2" and "readRune rd1 = (x, err, rd1')"
  shows "\<exists>rd2'. readRune rd2 = (x, err, rd2') \<and> column rd1' = column rd2' \<and> Comment rd1' = Comment rd1 \<and>
           (tied s1 s2 rd1' rd2' \<or> (apart s1 s2 rd1' rd2' \<and> x = LF \<and> err = None))"
proof -
  consider (eq) "buf rd1 = buf rd2"
    | (pre) p where "p \<noteq> []" "last p = LF" "buf rd1 = p @ s1" "buf rd2 = p @ s2"
    using assms(1) by (auto simp: tied_def)
  then show ?thesis
  proof cases
    case eq
    have c: "Comment rd1 = Comment rd2" "later rd1 = later rd2"
      using assms(1) by (auto simp: tied_def)
    from readRune_twin_eq [OF eq c(2,1) assms(2,3)]
    show ?thesis by (auto simp: tied_def)
  next
    case pre
    have c: "Comment rd1 = Comment rd2" "later rd1 = later rd2"
      using assms(1) by (auto simp: tied_def)
    from readRune_twin_pre [OF pre c(2,1) assms(2,3)]
    obtain rd2' p' where r: "readRune rd2 = (x, err, rd2')" "column rd1' = column rd2'"
      "Comment rd1' = Comment rd1" "Comment rd1' = Comment rd2'" "later rd1' = later rd2'"
      "err = None" "buf rd1' = p' @ s1" "buf rd2' = p' @ s2"
      "(p' \<noteq> [] \<and> last p' = LF) \<or> (p' = [] \<and> x = LF)"
      by blast
    have "tied s1 s2 rd1' rd2' \<or> (apart s1 s2 rd1' rd2' \<and> x = LF \<and> err = None)"
      using r(4-9) by (auto simp: tied_def apart_def)
    then show ?thesis using r(1-3) by blast
  qed
qed

lemma tied_field [simp]:
  "tied s1 s2 (rd1\<lparr>field := f\<rparr>) (rd2\<lparr>field := g\<rparr>) = tied s1 s2 rd1 rd2"
  by (simp add: tied_def)

lemma skip_twin:
  "skip delim rd1 = (err, rd1') \<Longrightarrow> delim = LF \<Longrightarrow> tied s1 s2 rd1 rd2 \<Longrightarrow> column rd1 = column rd2 \<Longrightarrow>
   \<exists>rd2'. skip delim rd2 = (err, rd2') \<and> column rd1' = column rd2' \<and> Comment rd1' = Comment rd1 \<and>
     (tied s1 s2 rd1' rd2' \<or> (apart s1 s2 rd1' rd2' \<and> err = None))"
proof (induction delim rd1 arbitrary: err rd1' rd2 rule: skip.induct)
  case (1 delim rd1)
  obtain x e1 rd11 where rr: "readRune rd1 = (x, e1, rd11)"
    by (cases "readRune rd1") auto
  obtain rd21 where r2: "readRune rd2 = (x, e1, rd21)" "column rd11 = column rd21"
    "Comment rd11 = Comment rd1"
    "tied s1 s2 rd11 rd21 \<or> (apart s1 s2 rd11 rd21 \<and> x = LF \<and> e1 = None)"
    using readRune_twin [OF "1.prems"(3,4) rr] by blast
  show ?case
  proof (cases "e1 = None \<and> x \<noteq> delim")
    case True
    then have s1: "skip delim rd11 = (err, rd1')"
      using "1.prems"(1) rr by (subst (asm) skip.simps) simp
    have t: "tied s1 s2 rd11 rd21" using r2(4) True "1.prems"(2) by auto
    obtain rd2' where i: "skip delim rd21 = (err, rd2')" "column rd1' = column rd2'"
      "Comment rd1' = Comment rd11"
      "tied s1 s2 rd1' rd2' \<or> (apart s1 s2 rd1' rd2' \<and> err = None)"
      using "1.IH" [OF rr [symmetric] refl _ _ s1 "1.prems"(2) t r2(2)] True by auto
    have "skip delim rd2 = (err, rd2')"
      using r2(1) True i(1) by (subst skip.simps) simp
    then show ?thesis using i r2(3) by auto
  next
    case False
    then have a: "rd1' = rd11 \<and> err = e1"
      using "1.prems"(1) rr by (subst (asm) skip.simps) (auto split: if_splits)
    have "skip delim rd2 = (err, rd21)"
      using r2(1) False a by (subst skip.simps) (auto split: if_splits)
    then show ?thesis using a r2 by auto
  qed
qed

lemma skipSpace_twin:
  "skipSpace rd1 = (c, err, rd1') \<Longrightarrow> tied s1 s2 rd1 rd2 \<Longrightarrow> column rd1 = column rd2 \<Longrightarrow>
   \<exists>rd2'. skipSpace rd2 = (c, err, rd2') \<and> column rd1' = column rd2' \<and> Comment rd1' = Comment rd1 \<and>
     (tied s1 s2 rd1' rd2' \<or> (apart s1 s2 rd1' rd2' \<and> c = LF \<and> err = None))"
proof (induction rd1 arbitrary: c err rd1' rd2 rule: skipSpace.induct)
  case (1 rd1)
  obtain x e1 rd11 where rr: "readRune rd1 = (x, e1, rd11)"
    by (cases "readRune rd1") auto
  obtain rd21 where r2: "readRune rd2 = (x, e1, rd21)" "column rd11 = column rd21"
    "Comment rd11 = Comment rd1"
    "tied s1 s2 rd11 rd21 \<or> (apart s1 s2 rd11 rd21 \<and> x = LF \<and> e1 = None)"
    using readRune_twin [OF "1.prems"(2,3) rr] by blast
  show ?case
  proof (cases "e1 = None \<and> x \<noteq> LF \<and> IsSpace x")
    case True
    then have s1: "skipSpace rd11 = (c, err, rd1')"
      using "1.prems"(1) rr by (subst (asm) skipSpace.simps) simp
    have t: "tied s1 s2 rd11 rd21" using r2(4) True by auto
    obtain rd2' where i: "skipSpace rd21 = (c, err, rd2')" "column rd1' = column rd2'"
      "Comment rd1' = Comment rd11"
      "tied s1 s2 rd1' rd2' \<or> (apart s1 s2 rd1' rd2' \<and> c = LF \<and> err = None)"
      using "1.IH" [OF rr [symmetric] refl _ s1 t r2(2)] True by auto
    have "skipSpace rd2 = (c, err, rd2')"
      using r2(1) True i(1) by (subst skipSpace.simps) simp
    then show ?thesis using i r2(3) by auto
  next
    case False
    then have a: "rd1' = rd11 \<and> err = e1 \<and> c = x"
      using "1.prems"(1) rr by (subst (asm) skipSpace.simps) (auto split: if_splits)
    have "skipSpace rd2 = (c, err, rd21)"
      using r2(1) False a by (subst skipSpace.simps) (auto split: if_splits)
    then show ?thesis using a r2 by auto
  qed
qed

lemma accumulate_twin:
  "accumulate al r1 rd1 = (c, err, rd1') \<Longrightarrow> tied s1 s2 rd1 rd2 \<Longrightarrow>
   column rd1 = column rd2 \<Longrightarrow> field rd1 = field rd2 \<Longrightarrow>
   \<exists>rd2'. accumulate al r1 rd2 = (c, err, rd2') \<and> column rd1' = column rd2' \<and>
     field rd1' = field rd2' \<and> Comment rd1' = Comment rd1 \<and>
     (tied s1 s2 rd1' rd2' \<or> (apart s1 s2 rd1' rd2' \<and> c = LF \<and> err = None))"
proof (induction al r1 rd1 arbitrary: c err rd1' rd2 rule: accumulate.induct)
  case (1 al r1 rd1)
  let ?a = "\<lambda>rd. if \<not> IsSpace r1 then rd\<lparr>field := field rd @ [r1]\<rparr> else rd"
  obtain x e1 rd11 where rr: "readRune (?a rd1) = (x, e1, rd11)"
    by (cases "readRune (?a rd1)") auto
  have t0: "tied s1 s2 (?a rd1) (?a rd2)" using "1.prems"(2) by simp
  have l0: "column (?a rd1) = column (?a rd2)" using "1.prems"(3) by simp
  obtain rd21 where r2: "readRune (?a rd2) = (x, e1, rd21)" "column rd11 = column rd21"
    "Comment rd11 = Comment (?a rd1)"
    "tied s1 s2 rd11 rd21 \<or> (apart s1 s2 rd11 rd21 \<and> x = LF \<and> e1 = None)"
    using readRune_twin [OF t0 l0 rr] by blast
  have cm: "Comment rd11 = Comment rd1" using r2(3) by simp
  have fl: "field rd11 = field rd21"
    using readRune_field [OF rr] readRune_field [OF r2(1)] "1.prems"(4) by simp
  show ?case
  proof (cases "e1 = None \<and> (if x = LBRACE then al < column rd11 else \<not> IsSpace x)")
    case True
    then have s1: "accumulate al x rd11 = (c, err, rd1')"
      using "1.prems"(1) accumulate_step [OF rr, of al] by (auto split: if_splits)
    have "x \<noteq> LF" using True by (auto simp: IsSpace_def split: if_splits)
    then have t: "tied s1 s2 rd11 rd21" using r2(4) by auto
    have "\<exists>rd2'. accumulate al x rd21 = (c, err, rd2') \<and> column rd1' = column rd2' \<and>
        field rd1' = field rd2' \<and> Comment rd1' = Comment rd11 \<and>
        (tied s1 s2 rd1' rd2' \<or> (apart s1 s2 rd1' rd2' \<and> c = LF \<and> err = None))"
    proof (cases "x = LBRACE")
      case True
      then show ?thesis
        using "1.IH"(1) [OF rr [symmetric] refl _ _ _ s1 t r2(2) fl] \<open>e1 = None \<and> _\<close> by simp
    next
      case False
      then show ?thesis
        using "1.IH"(2) [OF rr [symmetric] refl _ _ _ s1 t r2(2) fl] \<open>e1 = None \<and> _\<close> by simp
    qed
    then obtain rd2' where i: "accumulate al x rd21 = (c, err, rd2')" "column rd1' = column rd2'"
      "field rd1' = field rd2'" "Comment rd1' = Comment rd11"
      "tied s1 s2 rd1' rd2' \<or> (apart s1 s2 rd1' rd2' \<and> c = LF \<and> err = None)"
      by blast
    have "accumulate al r1 rd2 = (c, err, rd2')"
      using accumulate_step [OF r2(1), of al] True r2(2) i(1) by (auto split: if_splits)
    then show ?thesis using i cm by auto
  next
    case False
    then have a: "rd1' = rd11 \<and> err = e1 \<and> c = x"
      using "1.prems"(1) accumulate_step [OF rr, of al] by (auto split: if_splits)
    have "accumulate al r1 rd2 = (c, err, rd21)"
      using accumulate_step [OF r2(1), of al] False r2(2) a by (auto split: if_splits)
    then show ?thesis using a r2(2,4) cm fl by auto
  qed
qed

lemma parseFields_twin:
  assumes "parseFields e rd1 = (h, d, err, rd1')" and "tied s1 s2 rd1 rd2"
    and "column rd1 = column rd2"
  shows "\<exists>rd2'. parseFields e rd2 = (h, d, err, rd2') \<and> column rd1' = column rd2' \<and>
     field rd1' = field rd2' \<and> Comment rd1' = Comment rd1 \<and>
     (tied s1 s2 rd1' rd2' \<or> (apart s1 s2 rd1' rd2' \<and> d = LF \<and> err = None))"
proof -
  obtain c e1 rd11 where ss: "skipSpace (rd1\<lparr>field := []\<rparr>) = (c, e1, rd11)"
    by (cases "skipSpace (rd1\<lparr>field := []\<rparr>)") auto
  have t0: "tied s1 s2 (rd1\<lparr>field := []\<rparr>) (rd2\<lparr>field := []\<rparr>)" using assms(2) by simp
  have c0: "column (rd1\<lparr>field := []\<rparr>) = column (rd2\<lparr>field := []\<rparr>)" using assms(3) by simp
  obtain rd21 where s2: "skipSpace (rd2\<lparr>field := []\<rparr>) = (c, e1, rd21)"
    "column rd11 = column rd21" "Comment rd11 = Comment (rd1\<lparr>field := []\<rparr>)"
    "tied s1 s2 rd11 rd21 \<or> (apart s1 s2 rd11 rd21 \<and> c = LF \<and> e1 = None)"
    using skipSpace_twin [OF ss t0 c0] by blast
  have fl: "field rd11 = field rd21"
    using skipSpace_field [OF ss] skipSpace_field [OF s2(1)] by simp
  have cm: "Comment rd11 = Comment rd1" using s2(3) by simp
  show ?thesis
  proof (cases "e1 \<noteq> None \<or> c = LF \<or> c = TAB \<or> c = SPACE \<or> c = LBRACE \<or> c = RBRACE")
    case True
    then have a: "rd1' = rd11"
      using assms(1) ss by (auto simp: parseFields_def split: if_splits)
    have b: "parseFields e rd2 = (h, d, err, rd21)"
      using assms(1) ss s2(1,2) True by (auto simp: parseFields_def split: if_splits)
    have "apart s1 s2 rd11 rd21 \<and> c = LF \<and> e1 = None \<Longrightarrow> d = LF \<and> err = None"
      using assms(1) ss by (auto simp: parseFields_def split: if_splits)
    then show ?thesis using a b s2(2,4) fl cm by auto
  next
    case False
    then have t: "tied s1 s2 rd11 rd21" using s2(4) by auto
    obtain c2 e2 rd12 where ac: "accumulate (DEF_ALIGN e) c rd11 = (c2, e2, rd12)"
      by (cases "accumulate (DEF_ALIGN e) c rd11") auto
    obtain rd22 where a2: "accumulate (DEF_ALIGN e) c rd21 = (c2, e2, rd22)"
      "column rd12 = column rd22" "field rd12 = field rd22" "Comment rd12 = Comment rd11"
      "tied s1 s2 rd12 rd22 \<or> (apart s1 s2 rd12 rd22 \<and> c2 = LF \<and> e2 = None)"
      using accumulate_twin [OF ac t s2(2) fl] by blast
    have a: "rd1' = rd12"
      using assms(1) ss ac False by (auto simp: parseFields_def split: if_splits)
    have b: "parseFields e rd2 = (h, d, err, rd22)"
      using assms(1) ss ac s2(1) a2(1) False by (auto simp: parseFields_def split: if_splits)
    have "apart s1 s2 rd12 rd22 \<and> c2 = LF \<and> e2 = None \<Longrightarrow> d = LF \<and> err = None"
      using assms(1) ss ac False by (auto simp: parseFields_def split: if_splits)
    then show ?thesis using a b a2(2-5) cm by auto
  qed
qed

lemma parseLine_loop_twin:
  "parseLine_loop e fs rd1 = (fs', st, err, rd1') \<Longrightarrow> tied s1 s2 rd1 rd2 \<Longrightarrow>
   column rd1 = column rd2 \<Longrightarrow>
   \<exists>rd2'. parseLine_loop e fs rd2 = (fs', st, err, rd2') \<and> column rd1' = column rd2' \<and>
     Comment rd1' = Comment rd1 \<and> (tied s1 s2 rd1' rd2' \<or> apart s1 s2 rd1' rd2')"
proof (induction e fs rd1 arbitrary: fs' st err rd1' rd2 rule: parseLine_loop.induct)
  case (1 e fs rd1)
  obtain h d e1 rd11 where pf: "parseFields e rd1 = (h, d, e1, rd11)"
    by (cases "parseFields e rd1") auto
  obtain rd21 where p2: "parseFields e rd2 = (h, d, e1, rd21)" "column rd11 = column rd21"
    "field rd11 = field rd21" "Comment rd11 = Comment rd1"
    "tied s1 s2 rd11 rd21 \<or> (apart s1 s2 rd11 rd21 \<and> d = LF \<and> e1 = None)"
    using parseFields_twin [OF pf "1.prems"(2,3)] by blast
  let ?fs1 = "if h then fs @ [field rd11] else fs"
  let ?fs2 = "if h then fs @ [field rd21] else fs"
  have fs: "?fs1 = ?fs2" using p2(3) by simp
  show ?case
  proof (cases "d = LBRACE \<or> d = RBRACE \<or> d = LF \<or> e1 \<noteq> None")
    case True
    then have a: "rd1' = rd11"
      using "1.prems"(1) pf by (subst (asm) parseLine_loop.simps) (auto simp: Let_def split: if_splits)
    have "parseLine_loop e fs rd1 = parseLine_loop e fs rd2 \<or> True" by simp
    have b: "parseLine_loop e fs rd2 = (fs', st, err, rd21)"
      using "1.prems"(1) pf p2(1,3) True
      by (subst (asm) parseLine_loop.simps, subst parseLine_loop.simps)
         (auto simp: Let_def split: if_splits)
    show ?thesis using a b p2(2,4,5) by auto
  next
    case False
    then have l1: "parseLine_loop e ?fs1 rd11 = (fs', st, err, rd1')"
      using "1.prems"(1) pf by (subst (asm) parseLine_loop.simps) (simp add: Let_def)
    have t: "tied s1 s2 rd11 rd21" using p2(5) False by auto
    obtain rd2' where i: "parseLine_loop e ?fs1 rd21 = (fs', st, err, rd2')"
      "column rd1' = column rd2'" "Comment rd1' = Comment rd11"
      "tied s1 s2 rd1' rd2' \<or> apart s1 s2 rd1' rd2'"
      using "1.IH" [OF pf [symmetric] refl refl refl _ _ _ _ _ l1 t p2(2)] False by auto
    have "parseLine_loop e fs rd2 = (fs', st, err, rd2')"
      using p2(1) False i(1) fs by (subst parseLine_loop.simps) (simp add: Let_def)
    then show ?thesis using i p2(4) by auto
  qed
qed

lemma tied_heads:
  assumes "tied s1 s2 rd1 rd2"
  shows "buf rd1 = buf rd2 \<or>
    (\<exists>a p1. buf rd1 = a # p1 @ s1 \<and> buf rd2 = a # p1 @ s2 \<and>
       (if p1 = [] then a = LF else last p1 = LF))"
proof (cases "buf rd1 = buf rd2")
  case False
  then obtain p where p: "p \<noteq> []" "last p = LF" "buf rd1 = p @ s1" "buf rd2 = p @ s2"
    using assms by (auto simp: tied_def)
  then obtain a p1 where "p = a # p1" by (cases p) auto
  then show ?thesis using p by (intro disjI2 exI [of _ a] exI [of _ p1]) (auto split: if_splits)
qed simp

lemma parseLine_twin:
  assumes "parseLine e rd1 = (fs, st, err, rd1')" and "tied s1 s2 rd1 rd2"
    and "Comment rd1 \<noteq> LF"
  shows "\<exists>rd2'. parseLine e rd2 = (fs, st, err, rd2') \<and> column rd1' = column rd2' \<and>
     Comment rd1' = Comment rd1 \<and> (tied s1 s2 rd1' rd2' \<or> apart s1 s2 rd1' rd2')"
proof -
  let ?r1 = "rd1\<lparr>line := line rd1 + 1, column := - 1\<rparr>"
  let ?r2 = "rd2\<lparr>line := line rd2 + 1, column := - 1\<rparr>"
  have cm: "Comment rd1 = Comment rd2" and lt: "later rd1 = later rd2"
    using assms(2) by (auto simp: tied_def)
  obtain c e1 rd11 where rr: "ReadRune ?r1 = (c, e1, rd11)"
    by (cases "ReadRune ?r1") auto
  obtain c' e1' rd21 where r2: "ReadRune ?r2 = (c', e1', rd21)"
    by (cases "ReadRune ?r2") auto
  have same: "c' = c \<and> e1' = e1 \<and> column rd11 = column rd21 \<and> Comment rd11 = Comment rd1 \<and>
      Comment rd21 = Comment rd2 \<and> lastRune rd11 = lastRune rd21 \<and> later rd11 = later rd21 \<and>
      (e1 \<noteq> None \<longrightarrow> buf rd11 = buf rd21)"
    using tied_heads [OF assms(2)] rr r2 lt
    by (auto simp: ReadRune_def split: list.splits)
  show ?thesis
  proof (cases "e1 = None")
    case False
    then have a: "rd1' = rd11 \<and> fs = [] \<and> st = IO_OBJ_OUT \<and> err = e1"
      using assms(1) rr by (simp add: parseLine_def)
    have "parseLine e rd2 = (fs, st, err, rd21)"
      using r2 same a False by (simp add: parseLine_def)
    moreover have "tied s1 s2 rd11 rd21"
      using same cm False by (simp add: tied_def)
    ultimately show ?thesis using a same by auto
  next
    case True
    then obtain bs1 where b1: "buf rd1 = c # bs1" "rd11 = ?r1\<lparr>buf := bs1, lastRune := Some c\<rparr>"
      using rr by (auto simp: ReadRune_def split: list.splits)
    obtain bs2 where b2: "buf rd2 = c # bs2" "rd21 = ?r2\<lparr>buf := bs2, lastRune := Some c\<rparr>"
      using r2 same True by (auto simp: ReadRune_def split: list.splits)
    show ?thesis
    proof (cases "Comment rd1 \<noteq> 0 \<and> c = Comment rd1")
      case True
      then have sk: "skip LF rd11 = (err, rd1')" and o: "fs = [] \<and> st = IO_OBJ_OUT"
        using assms(1) rr \<open>e1 = None\<close> same by (auto simp: parseLine_def split: prod.splits)
      have "c \<noteq> LF" using True assms(3) by simp
      then have "bs1 = bs2 \<or> (\<exists>p. p \<noteq> [] \<and> last p = LF \<and> bs1 = p @ s1 \<and> bs2 = p @ s2)"
        using tied_heads [OF assms(2)] b1(1) b2(1) by (auto split: if_splits)
      then have t: "tied s1 s2 rd11 rd21"
        using b1(2) b2(2) cm lt by (auto simp: tied_def)
      obtain rd2' where i: "skip LF rd21 = (err, rd2')" "column rd1' = column rd2'"
        "Comment rd1' = Comment rd11"
        "tied s1 s2 rd1' rd2' \<or> (apart s1 s2 rd1' rd2' \<and> err = None)"
        using skip_twin [OF sk refl t] same by blast
      have "parseLine e rd2 = (fs, st, err, rd2')"
        using r2 same \<open>e1 = None\<close> True cm i(1) o by (simp add: parseLine_def)
      then show ?thesis using i same by auto
    next
      case False
      then have l1: "parseLine_loop e [] (UnreadRune rd11) = (fs, st, err, rd1')"
        using assms(1) rr \<open>e1 = None\<close> same by (auto simp: parseLine_def)
      have u1: "UnreadRune rd11 = ?r1\<lparr>lastRune := None\<rparr>"
        using b1 by (simp add: UnreadRune_def)
      have u2: "UnreadRune rd21 = ?r2\<lparr>lastRune := None\<rparr>"
        using b2 by (simp add: UnreadRune_def)
      have t: "tied s1 s2 (UnreadRune rd11) (UnreadRune rd21)"
        unfolding u1 u2 using assms(2) by (simp add: tied_def)
      have c0: "column (UnreadRune rd11) = column (UnreadRune rd21)"
        unfolding u1 u2 by simp
      obtain rd2' where i: "parseLine_loop e [] (UnreadRune rd21) = (fs, st, err, rd2')"
        "column rd1' = column rd2'" "Comment rd1' = Comment (UnreadRune rd11)"
        "tied s1 s2 rd1' rd2' \<or> apart s1 s2 rd1' rd2'"
        using parseLine_loop_twin [OF l1 t c0] by blast
      have "parseLine e rd2 = (fs, st, err, rd2')"
        using r2 same \<open>e1 = None\<close> False cm i(1) by (auto simp: parseLine_def)
      then show ?thesis using i u1 by auto
    qed
  qed
qed

lemma Read_body_twin:
  assumes "tied s1 s2 rd1 rd2" and "Comment rd1 \<noteq> LF"
  shows "(\<exists>r1 r2. Read_body e setUUID fileID co prevState g rd1 = Return r1 \<and>
            Read_body e setUUID fileID co prevState g rd2 = Return r2 \<and>
            result_of r1 = result_of r2)
       \<or> (\<exists>co' ps' g' rd1' rd2'.
            Read_body e setUUID fileID co prevState g rd1 = Continue co' ps' g' rd1' \<and>
            Read_body e setUUID fileID co prevState g rd2 = Continue co' ps' g' rd2' \<and>
            Comment rd1' = Comment rd1 \<and>
            (tied s1 s2 rd1' rd2' \<or> apart s1 s2 rd1' rd2'))"
proof -
  obtain fs st err rd1' where p1: "parseLine e rd1 = (fs, st, err, rd1')"
    by (cases "parseLine e rd1") auto
  obtain rd2' where p2: "parseLine e rd2 = (fs, st, err, rd2')" "column rd1' = column rd2'"
    "Comment rd1' = Comment rd1" "tied s1 s2 rd1' rd2' \<or> apart s1 s2 rd1' rd2'"
    using parseLine_twin [OF p1 assms] by blast
  show ?thesis
  proof (cases "Read_body e setUUID fileID co prevState g rd1")
    case (Return r1)
    then obtain r2 where "Read_body e setUUID fileID co prevState g rd2 = Return r2"
      "result_of r1 = result_of r2"
      using p1 p2(1,2)
      by (auto simp: Read_body_def Let_def Reader_error_def result_of_def unplaced_def
          split: IoState.splits if_splits prod.splits)
    then show ?thesis using Return by blast
  next
    case (Continue co' ps' g' rd)
    then have "rd = rd1' \<and> Read_body e setUUID fileID co prevState g rd2 = Continue co' ps' g' rd2'"
      using p1 p2(1)
      by (auto simp: Read_body_def Let_def split: IoState.splits if_splits prod.splits)
    then show ?thesis using Continue p2(3,4) by blast
  qed
qed

lemma apart_tied: "apart s s rd1 rd2 \<Longrightarrow> tied s s rd1 rd2"
  by (simp add: apart_def tied_def)

lemma Read_loop_twin:
  "tied s1 s2 rd1 rd2 \<Longrightarrow> Comment rd1 \<noteq> LF \<Longrightarrow>
   result_of (Read_loop e setUUID fileID co prevState g rd1) =
     result_of (Read_loop e setUUID fileID co prevState g rd2)
   \<or> (s1 \<noteq> s2 \<and> (\<exists>co' ps' g' rd1' rd2'.
        apart s1 s2 rd1' rd2' \<and> Comment rd1' = Comment rd1 \<and>
        Read_loop e setUUID fileID co prevState g rd1 = Read_loop e setUUID fileID co' ps' g' rd1' \<and>
        Read_loop e setUUID fileID co prevState g rd2 = Read_loop e setUUID fileID co' ps' g' rd2'))"
proof (induction e setUUID fileID co prevState g rd1 arbitrary: rd2 rule: Read_loop.induct)
  case (1 e setUUID fileID co prevState g rd1)
  consider
    (ret) r1 r2 where "Read_body e setUUID fileID co prevState g rd1 = Return r1"
      "Read_body e setUUID fileID co prevState g rd2 = Return r2" "result_of r1 = result_of r2"
  | (go) co' ps' g' rd1' rd2' where
      "Read_body e setUUID fileID co prevState g rd1 = Continue co' ps' g' rd1'"
      "Read_body e setUUID fileID co prevState g rd2 = Continue co' ps' g' rd2'"
      "Comment rd1' = Comment rd1" "tied s1 s2 rd1' rd2' \<or> apart s1 s2 rd1' rd2'"
    using Read_body_twin [OF "1.prems", of e setUUID fileID co prevState g] by blast
  then show ?case
  proof cases
    case ret
    then show ?thesis
      using Read_loop_Return [OF ret(1)] Read_loop_Return [OF ret(2)] by simp
  next
    case go
    note l1 = Read_loop_Continue [OF go(1)]
    note l2 = Read_loop_Continue [OF go(2)]
    have cm: "Comment rd1' \<noteq> LF" using go(3) "1.prems"(2) by simp
    show ?thesis
    proof (cases "tied s1 s2 rd1' rd2'")
      case True
      from "1.IH" [OF go(1) True cm]
      show ?thesis unfolding l1 l2 using go(3) by auto
    next
      case False
      then have ap: "apart s1 s2 rd1' rd2'" using go(4) by simp
      then have "s1 \<noteq> s2" using False apart_tied by blast
      then show ?thesis using ap go(3) l1 l2 by blast
    qed
  qed
qed

text \<open>
  C4 as stated fails. A line with whitespace before the comment marker is not a
  comment for \<^verbatim>\<open>parseLine\<close>, which compares only the first rune of the line
  with the marker: inside a block the line \<^verbatim>\<open>" # c x"\<close> adds the property
  \<^verbatim>\<open>#\<close> with the value \<^verbatim>\<open>c x\<close>.
\<close>

theorem Read_indented_hash_is_property:
  "Read sample_env False [] sample_world
     (NewReader (runes ''define service{\<newline> # c x\<newline>}\<newline>'') []) =
     Ret (Some \<lparr>Type = T_KIND 8, UUID = NoUUID, Props = [[HASH] \<mapsto> runes ''c x''],
               FileID = [], Indent = 4, Align = 32\<rparr>,
          None, sample_world,
          \<lparr>Comment = HASH, line = 4, inputline = 2, column = 0, field = [],
           buf = [LF], lastRune = Some RBRACE, later = []\<rparr>)"
  by (simp add: run_defs sample_env_def sample_world_def)

text \<open>
  C4 (amended). A comment line is a line whose first rune is the comment marker of
  the reader (a rune other than NUL and the newline); it begins the input or follows
  a newline. Take the input with the line and the input without it: \<^verbatim>\<open>Read\<close>
  returns the same on both, that is the same object (its type and its properties),
  the same package state and the same error, up to the line number in a
  \<^verbatim>\<open>ParseError\<close>; and so does the loop of \<^verbatim>\<open>Read\<close> from any state, outside a
  block or inside one. When the reader is at the comment line, \<^verbatim>\<open>parseLine\<close>
  consumes the line up to and including its newline and yields no fields.
\<close>

theorem comment_line_ignored:
  assumes "Comment rd = c" and "c \<noteq> 0" and "c \<noteq> LF" and "LF \<notin> set cmt"
    and "pre = [] \<or> last pre = LF" and "buf rd = pre @ c # cmt @ LF # post"
  shows "result_of (Read e setUUID fileID g rd) =
           result_of (Read e setUUID fileID g (rd\<lparr>buf := pre @ post\<rparr>)) \<and>
         result_of (Read_loop e setUUID fileID co prevState g rd) =
           result_of (Read_loop e setUUID fileID co prevState g (rd\<lparr>buf := pre @ post\<rparr>)) \<and>
         (pre = [] \<longrightarrow> (\<exists>rd'. parseLine e rd = ([], IO_OBJ_OUT, None, rd') \<and> buf rd' = post))"
proof -
  let ?s1 = "c # cmt @ LF # post"
  let ?rdB = "rd\<lparr>buf := pre @ post\<rparr>"
  have main: "\<And>co prevState. result_of (Read_loop e setUUID fileID co prevState g rd) =
           result_of (Read_loop e setUUID fileID co prevState g ?rdB)"
  proof -
    fix co prevState
    let ?A = "Read_loop e setUUID fileID co prevState g rd"
    let ?B = "Read_loop e setUUID fileID co prevState g ?rdB"
    have "result_of ?A = result_of ?B \<or>
      (\<exists>co' ps' g' rd1' rd2'. apart ?s1 post rd1' rd2' \<and> Comment rd1' = Comment rd \<and>
         ?A = Read_loop e setUUID fileID co' ps' g' rd1' \<and>
         ?B = Read_loop e setUUID fileID co' ps' g' rd2')"
    proof (cases "pre = []")
      case True
      then have "apart ?s1 post rd ?rdB" using assms(6) by (simp add: apart_def)
      then show ?thesis using True by (intro disjI2 exI [of _ co] exI [of _ prevState] exI [of _ g]
            exI [of _ rd] exI [of _ ?rdB]) simp
    next
      case False
      then have "tied ?s1 post rd ?rdB"
        using assms(5,6) by (auto simp: tied_def)
      from Read_loop_twin [OF this, of e setUUID fileID co prevState g] assms(1,3)
      show ?thesis by blast
    qed
    then show "result_of ?A = result_of ?B"
    proof
      assume "\<exists>co' ps' g' rd1' rd2'. apart ?s1 post rd1' rd2' \<and> Comment rd1' = Comment rd \<and>
         ?A = Read_loop e setUUID fileID co' ps' g' rd1' \<and>
         ?B = Read_loop e setUUID fileID co' ps' g' rd2'"
      then obtain co' ps' g' rd1' rd2' where a: "apart ?s1 post rd1' rd2'"
        "Comment rd1' = Comment rd" "?A = Read_loop e setUUID fileID co' ps' g' rd1'"
        "?B = Read_loop e setUUID fileID co' ps' g' rd2'"
        by blast
      have b1: "buf rd1' = c # cmt @ LF # post" and c1: "Comment rd1' = c"
        using a(1,2) assms(1) by (auto simp: apart_def)
      obtain rd1'' where pl: "parseLine e rd1' = ([], IO_OBJ_OUT, None, rd1'')"
        "buf rd1'' = post" "Comment rd1'' = Comment rd1'"
        using parseLine_comment [OF c1 assms(2,4) b1] by blast
      have lt: "later rd1'' = later rd1'"
        using parseLine_advance [OF pl(1)] by (simp add: advance_def)
      have "Read_body e setUUID fileID co' ps' g' rd1' = Continue co' ps' g' rd1''"
        using pl(1) by (simp add: Read_body_def)
      then have s: "Read_loop e setUUID fileID co' ps' g' rd1' =
          Read_loop e setUUID fileID co' ps' g' rd1''"
        by (rule Read_loop_Continue)
      have t: "tied post post rd1'' rd2'"
        using a(1) pl(2,3) lt by (simp add: tied_def apart_def)
      have "Comment rd1'' \<noteq> LF" using pl(3) c1 assms(3) by simp
      from Read_loop_twin [OF t this, of e setUUID fileID co' ps' g']
      have "result_of (Read_loop e setUUID fileID co' ps' g' rd1'') =
          result_of (Read_loop e setUUID fileID co' ps' g' rd2')"
        by simp
      then show ?thesis using a(3,4) s by simp
    qed simp
  qed
  have cl: "pre = [] \<longrightarrow> (\<exists>rd'. parseLine e rd = ([], IO_OBJ_OUT, None, rd') \<and> buf rd' = post)"
  proof
    assume "pre = []"
    then have "buf rd = c # cmt @ LF # post" using assms(6) by simp
    from parseLine_comment [OF assms(1,2,4) this]
    show "\<exists>rd'. parseLine e rd = ([], IO_OBJ_OUT, None, rd') \<and> buf rd' = post" by blast
  qed
  show ?thesis using main cl by (simp add: Read_def)
qed

theorem comment_line_ignored_witness:
  "result_of (Read sample_env False [] sample_world
      (NewReader (runes ''define service{\<newline># c x\<newline>host_name h1\<newline>}\<newline>'') [])) =
     Ret (Some sample_obj, None, sample_world) \<and>
   result_of (Read sample_env False [] sample_world
      (NewReader (runes ''define service{\<newline>host_name h1\<newline>}\<newline>'') [])) =
     Ret (Some sample_obj, None, sample_world)"
proof -
  let ?rd = "NewReader (runes ''define service{\<newline># c x\<newline>host_name h1\<newline>}\<newline>'') []"
  let ?pre = "runes ''define service{\<newline>''"
  let ?post = "runes ''host_name h1\<newline>}\<newline>''"
  have h1: "Comment ?rd = HASH" by (simp add: NewReader_def)
  have h2: "HASH \<noteq> 0" by simp
  have h3: "HASH \<noteq> LF" by simp
  have h4: "LF \<notin> set (runes '' c x'')" by (simp add: runes_def)
  have h5: "?pre = [] \<or> last ?pre = LF" by (simp add: runes_def)
  have h6: "buf ?rd = ?pre @ HASH # runes '' c x'' @ LF # ?post"
    by (simp add: NewReader_def runes_def)
  have w: "?rd\<lparr>buf := ?pre @ ?post\<rparr> =
      NewReader (runes ''define service{\<newline>host_name h1\<newline>}\<newline>'') []"
    by (simp add: NewReader_def runes_def)
  have b: "result_of (Read sample_env False [] sample_world
      (NewReader (runes ''define service{\<newline>host_name h1\<newline>}\<newline>'') [])) =
     Ret (Some sample_obj, None, sample_world)"
    by (simp add: run_defs sample_env_def sample_world_def sample_obj_def result_of_def)
  from comment_line_ignored [OF h1 h2 h3 h4 h5 h6, of sample_env False "[]" sample_world]
  show ?thesis unfolding w using b by simp
qed

section \<open>The round trip\<close>

text \<open>
  C8 (amended). Take an object that \<^verbatim>\<open>Read\<close> has produced, whose keys are
  brace-free and shorter than the alignment width \<open>Align\<close> (and do not begin with
  the comment marker when the indent is 0); whose values are printed at or beyond the
  threshold column (\<open>DEF_ALIGN \<le> Indent + Align\<close>); whose type name is read back
  as its type from the header; and whose comment line is empty or a comment without a
  newline. Printing it with \<^verbatim>\<open>sorted = false\<close>, in whatever order the
  properties come, and reading the text back gives an object with the same property
  map and type.
\<close>

theorem Print_Read_roundtrip:
  assumes made: "Read e setUUID0 fileID0 g0 rd0 = Ret (Some co, None, g1, rd1)"
    and al: "DEF_ALIGN e \<le> int (Indent co + Align co)"
    and keys: "\<forall>k\<in>dom (Props co). LBRACE \<notin> set k \<and> length k < Align co \<and>
                 (Indent co = 0 \<longrightarrow> hd k \<noteq> HASH)"
    and order: "distinct ks" "set ks = dom (Props co)"
    and ty: "field_ok (DEF_ALIGN e) 7 (CfgType_String e (Type co))"
        "7 + int (length (CfgType_String e (Type co))) \<le> DEF_ALIGN e"
        "CfgName_Type e (CfgType_String e (Type co)) = Type co"
    and cmt: "generateComment e co = [] \<or>
              (hd (generateComment e co) = HASH \<and> LF \<notin> set (generateComment e co))"
  shows "\<exists>co' g' rd'. Read e setUUID fileID g (NewReader (Print e ks co) []) =
             Ret (Some co', None, g', rd') \<and>
           Props co' = Props co \<and> Type co' = Type co"
proof -
  have sh: "props_shaped (Props co)" and t: "Type co \<noteq> T_INVALID"
    using Read_shaped [OF made] by simp_all
  obtain kvs where kvs: "Props co = map_of (map (\<lambda>(k, vs). (k, Join vs [SPACE])) kvs)"
    and ok: "\<forall>(k, vs)\<in>set kvs. k \<in> dom (Props co) \<and> plain_field k \<and> vs \<noteq> [] \<and>
              (\<forall>v\<in>set vs. plain_field v)"
    using shaped_kvs [OF sh] by blast
  have k: "\<forall>(k, vs)\<in>set kvs. plain_field k \<and> LBRACE \<notin> set k \<and> length k < Align co \<and>
                 (Indent co = 0 \<longrightarrow> hd k \<noteq> HASH) \<and> vs \<noteq> [] \<and> (\<forall>v\<in>set vs. plain_field v)"
    using ok keys by fastforce
  show ?thesis
    using Print_Read_shape [OF refl al kvs k order ty t cmt] .
qed

theorem Print_Read_roundtrip_witness:
  "Read sample_env False [] sample_world
     (NewReader (runes ''define service{\<newline>host_name h1\<newline>}\<newline>'') []) =
     Ret (Some sample_obj, None, sample_world,
       \<lparr>Comment = HASH, line = 4, inputline = 2, column = 0, field = [],
        buf = [LF], lastRune = Some RBRACE, later = []\<rparr>) \<and>
   Print sample_env [runes ''host_name''] sample_obj =
     runes ''# service\<newline>define service{\<newline>    host_name                       h1\<newline>    }\<newline>'' \<and>
   (\<exists>co' g' rd'.
      Read sample_env False [] sample_world
        (NewReader (Print sample_env [runes ''host_name''] sample_obj) []) =
        Ret (Some co', None, g', rd') \<and>
      Props co' = [runes ''host_name'' \<mapsto> runes ''h1''] \<and> Type co' = T_KIND 8)"
proof -
  have h0: "Read sample_env False [] sample_world
     (NewReader (runes ''define service{\<newline>host_name h1\<newline>}\<newline>'') []) =
     Ret (Some sample_obj, None, sample_world,
       \<lparr>Comment = HASH, line = 4, inputline = 2, column = 0, field = [],
        buf = [LF], lastRune = Some RBRACE, later = []\<rparr>)"
    by (simp add: run_defs sample_env_def sample_world_def sample_obj_def)
  have p: "Print sample_env [runes ''host_name''] sample_obj =
     runes ''# service\<newline>define service{\<newline>    host_name                       h1\<newline>    }\<newline>''"
    by (simp add: print_defs sample_env_def sample_obj_def runes_def)
  have h2: "DEF_ALIGN sample_env \<le> int (Indent sample_obj + Align sample_obj)"
    by (simp add: sample_env_def sample_obj_def)
  have h4: "\<forall>k\<in>dom (Props sample_obj). LBRACE \<notin> set k \<and> length k < Align sample_obj \<and>
                 (Indent sample_obj = 0 \<longrightarrow> hd k \<noteq> HASH)"
    by (simp add: sample_obj_def runes_def)
  have h5: "distinct [runes ''host_name'']" by simp
  have h6: "set [runes ''host_name''] = dom (Props sample_obj)" by (simp add: sample_obj_def)
  have h7: "field_ok (DEF_ALIGN sample_env) 7 (CfgType_String sample_env (Type sample_obj))"
    by (simp add: sample_env_def sample_obj_def field_ok_def runes_def IsSpace_def)
  have h8: "7 + int (length (CfgType_String sample_env (Type sample_obj))) \<le> DEF_ALIGN sample_env"
    by (simp add: sample_env_def sample_obj_def runes_def)
  have h9: "CfgName_Type sample_env (CfgType_String sample_env (Type sample_obj)) = Type sample_obj"
    by (simp add: sample_env_def sample_obj_def)
  have h11: "generateComment sample_env sample_obj = [] \<or>
              (hd (generateComment sample_env sample_obj) = HASH \<and>
               LF \<notin> set (generateComment sample_env sample_obj))"
    by (simp add: sample_env_def sample_obj_def runes_def)
  from Print_Read_roundtrip [OF h0 h2 h4 h5 h6 h7 h8 h9 h11, of False "[]" sample_world]
  show ?thesis using h0 p by (simp add: sample_obj_def)
qed

end
